theory Spec2Isabelle
  imports Main "HOL-Library.Multiset"
begin

section \<open>Values, path segments and errors\<close>

text \<open>
  The differ of \<^verbatim>\<open>src/core/diffs.py\<close> works on parsed YAML: scalars, dicts and lists.
  The code tells the three shapes apart with \<^verbatim>\<open>type(x) == dict\<close> and
  \<^verbatim>\<open>type(x) == list\<close>; everything else is a scalar. All the code does with a scalar
  is to compare it with \<^verbatim>\<open>!=\<close> (line 239) and to use it as a dict key or a set
  element, so a scalar is kept by what these operations see of it.

  Numbers are kept by value. Python's \<^verbatim>\<open>bool\<close> is a subclass of \<^verbatim>\<open>int\<close> with
  \<^verbatim>\<open>True == 1\<close> and \<^verbatim>\<open>hash(True) == hash(1)\<close>, and a float with a whole value is
  equal to the int of that value, with the same hash (\<^verbatim>\<open>1.0 == 1\<close>): \<open>SInt i\<close> is a
  bool, an int or a float whose value is the whole number \<open>i\<close>. \<open>SFloat m e\<close> is any
  other finite float, the fraction \<open>m / 2 ^ e\<close> in lowest terms (\<open>m\<close> odd and
  \<open>e > 0\<close>; every finite float that is not whole is exactly one such fraction), and
  \<open>SInf\<close> is an infinity, \<open>True\<close> for the positive one.

  NaN is the one scalar that \<^verbatim>\<open>==\<close> does not find equal to itself. A dict or a set
  looks a key up by identity first (\<^verbatim>\<open>is\<close>) and by \<^verbatim>\<open>==\<close> second, so a NaN
  object is found under itself and under no other NaN object: with
  \<^verbatim>\<open>x = float('nan')\<close>, \<^verbatim>\<open>{x: 0}.get(x)\<close> is 0 and
  \<^verbatim>\<open>{x: 0}.get(float('nan'))\<close> is \<^verbatim>\<open>None\<close>. \<open>SNaN n\<close> is the NaN object with
  identity \<open>n\<close>. With it the equality of this type is the equality of dict keys; the
  comparison of line 239 is \<open>py_ne\<close> below.

  A dict is an association list in insertion order (the order of \<^verbatim>\<open>items()\<close>); a real
  dict has each key once, which is \<open>wf_val\<close> below.
\<close>

datatype scalar = SNone | SInt int | SStr string | SFloat int nat | SInf bool | SNaN nat

datatype val = Scalar scalar | Mapping "(scalar \<times> val) list" | Sequence "val list"

text \<open>
  A path element is a dict key or a tuple \<^verbatim>\<open>(i, None)\<close>, \<^verbatim>\<open>(None, j)\<close> or
  \<^verbatim>\<open>(i, j)\<close> of list indices.
\<close>

datatype segment = Key scalar | IndexPair "nat option" "nat option"

type_synonym path = "segment list"

datatype error = IndexError | KeyError | AttributeError | TypeError

fun is_dict :: "val \<Rightarrow> bool" where
  "is_dict (Mapping d) = True"
| "is_dict v = False"

fun is_list :: "val \<Rightarrow> bool" where
  "is_list (Sequence l) = True"
| "is_list v = False"

fun wf_val :: "val \<Rightarrow> bool" where
  "wf_val (Scalar s) = True"
| "wf_val (Mapping d) = (distinct (map fst d) \<and> list_all (\<lambda>kv. wf_val (snd kv)) d)"
| "wf_val (Sequence l) = list_all wf_val l"

section \<open>The similarity matrix\<close>

type_synonym matrix = "int list list"

text \<open>The four lookup tables built from \<^verbatim>\<open>l2\<close> (step 2 of \<^verbatim>\<open>_create_similarity_matrix\<close>).\<close>

record buckets =
  simple_values :: "scalar \<rightharpoonup> nat list"
  key_value_pairs :: "scalar \<times> scalar \<rightharpoonup> nat list"
  complex_keys :: "scalar \<rightharpoonup> nat list"
  list_lengths :: "nat \<rightharpoonup> nat list"

definition empty_buckets :: buckets where
  "empty_buckets =
     \<lparr>simple_values = Map.empty, key_value_pairs = Map.empty,
      complex_keys = Map.empty, list_lengths = Map.empty\<rparr>"

text \<open>\<^verbatim>\<open>m.get(k, [])\<close> and \<^verbatim>\<open>m[k] = m.get(k, []) + [i]\<close>.\<close>

definition get_list :: "('k \<rightharpoonup> nat list) \<Rightarrow> 'k \<Rightarrow> nat list" where
  "get_list m k = (case m k of None \<Rightarrow> [] | Some js \<Rightarrow> js)"

definition bucket_add :: "('k \<rightharpoonup> nat list) \<Rightarrow> 'k \<Rightarrow> nat \<Rightarrow> ('k \<rightharpoonup> nat list)" where
  "bucket_add m k i = m(k \<mapsto> get_list m k @ [i])"

text \<open>The body of \<^verbatim>\<open>for k, v in l2[i].items()\<close> (lines 43 to 47).\<close>

fun parse_item :: "nat \<Rightarrow> scalar \<times> val \<Rightarrow> buckets \<Rightarrow> buckets" where
  "parse_item i (k, Scalar s) b =
     b\<lparr>key_value_pairs := bucket_add (key_value_pairs b) (k, s) i\<rparr>"
| "parse_item i (k, v) b =
     b\<lparr>complex_keys := bucket_add (complex_keys b) k i\<rparr>"

text \<open>The body of \<^verbatim>\<open>for i in range(len(l2))\<close> (lines 40 to 53).\<close>

fun parse_elem :: "nat \<Rightarrow> val \<Rightarrow> buckets \<Rightarrow> buckets" where
  "parse_elem i (Mapping d) b = fold (parse_item i) d b"
| "parse_elem i (Sequence l) b =
     b\<lparr>list_lengths := bucket_add (list_lengths b) (length l) i\<rparr>"
| "parse_elem i (Scalar s) b =
     b\<lparr>simple_values := bucket_add (simple_values b) s i\<rparr>"

text \<open>
  \<^verbatim>\<open>similarity_matrix[i][l2_index] += 1\<close>: Python raises IndexError when the row
  or the column does not exist.
\<close>

definition incr :: "matrix \<Rightarrow> nat \<Rightarrow> nat \<Rightarrow> error + matrix" where
  "incr M i j =
     (if i < length M then
        (if j < length (M ! i) then Inr (M[i := (M ! i)[j := M ! i ! j + 1]])
         else Inl IndexError)
      else Inl IndexError)"

text \<open>A loop whose body may raise: the first error ends it.\<close>

fun fold_err :: "('a \<Rightarrow> 's \<Rightarrow> error + 's) \<Rightarrow> 'a list \<Rightarrow> 's \<Rightarrow> error + 's" where
  "fold_err f [] s = Inr s"
| "fold_err f (x # xs) s = (case f x s of Inl e \<Rightarrow> Inl e | Inr s' \<Rightarrow> fold_err f xs s')"

text \<open>\<^verbatim>\<open>for l2_index in js: similarity_matrix[i][l2_index] += 1\<close>.\<close>

definition incr_all :: "nat \<Rightarrow> nat list \<Rightarrow> matrix \<Rightarrow> error + matrix" where
  "incr_all i js M = fold_err (\<lambda>l2_index M'. incr M' i l2_index) js M"

text \<open>The body of \<^verbatim>\<open>for k, v in l1[i].items()\<close> (lines 59 to 69).\<close>

fun score_item :: "buckets \<Rightarrow> nat \<Rightarrow> scalar \<times> val \<Rightarrow> matrix \<Rightarrow> error + matrix" where
  "score_item b i (k, Scalar s) M = incr_all i (get_list (key_value_pairs b) (k, s)) M"
| "score_item b i (k, v) M = incr_all i (get_list (complex_keys b) k) M"

text \<open>The body of \<^verbatim>\<open>for i in range(len(l1))\<close> (lines 56 to 76).\<close>

fun score_elem :: "buckets \<Rightarrow> nat \<Rightarrow> val \<Rightarrow> matrix \<Rightarrow> error + matrix" where
  "score_elem b i (Mapping d) M = fold_err (score_item b i) d M"
| "score_elem b i (Sequence l) M = incr_all i (get_list (list_lengths b) (length l)) M"
| "score_elem b i (Scalar s) M = incr_all i (get_list (simple_values b) s) M"

text \<open>
  Line 32 builds \<^verbatim>\<open>[[0] * len(l1) for _ in range(len(l2))]\<close>: \<^verbatim>\<open>len(l2)\<close> rows of
  \<^verbatim>\<open>len(l1)\<close> zeros each.
\<close>

definition parse_l2 :: "val list \<Rightarrow> buckets" where
  "parse_l2 l2 = fold (\<lambda>i. parse_elem i (l2 ! i)) [0..<length l2] empty_buckets"

definition create_similarity_matrix :: "val list \<Rightarrow> val list \<Rightarrow> error + matrix" where
  "create_similarity_matrix l1 l2 =
     (let similarity_matrix = replicate (length l2) (replicate (length l1) 0)
      in fold_err (\<lambda>i. score_elem (parse_l2 l2) i (l1 ! i)) [0..<length l1] similarity_matrix)"

section \<open>Ranking\<close>

text \<open>An entry \<^verbatim>\<open>(score, row_index, column_index)\<close>.\<close>

type_synonym entry = "int \<times> nat \<times> nat"

text \<open>
  The joining loop of \<^verbatim>\<open>_sort_similarity_list\<close> (lines 101 to 110): while either half
  has elements, pop the head of \<^verbatim>\<open>h1\<close> when \<^verbatim>\<open>h2\<close> is empty or its score is strictly
  greater, else the head of \<^verbatim>\<open>h2\<close>.
\<close>

fun merge_loop :: "entry list \<Rightarrow> entry list \<Rightarrow> entry list \<Rightarrow> entry list" where
  "merge_loop [] [] sorted_list = sorted_list"
| "merge_loop [] (b # h2) sorted_list = merge_loop [] h2 (sorted_list @ [b])"
| "merge_loop (a # h1) [] sorted_list = merge_loop h1 [] (sorted_list @ [a])"
| "merge_loop (a # h1) (b # h2) sorted_list =
     (if fst a > fst b then merge_loop h1 (b # h2) (sorted_list @ [a])
      else merge_loop (a # h1) h2 (sorted_list @ [b]))"

text \<open>
  \<^verbatim>\<open>int(len(sl)/2)\<close> is \<^verbatim>\<open>len(sl) div 2\<close> (the float division is exact below
  \<open>2^53\<close> elements).
\<close>

function sort_similarity_list :: "entry list \<Rightarrow> entry list" where
  "sort_similarity_list sl =
     (if length sl \<le> 1 then sl
      else (let split_index = length sl div 2;
                h1 = sort_similarity_list (take split_index sl);
                h2 = sort_similarity_list (drop split_index sl)
            in merge_loop h1 h2 []))"
  by pat_completeness auto
termination
  by (relation "measure length") auto

declare sort_similarity_list.simps [simp del]

text \<open>Lines 123 to 126: the entries of the matrix, row by row.\<close>

definition sim_list :: "matrix \<Rightarrow> entry list" where
  "sim_list sm =
     concat (map (\<lambda>r. map (\<lambda>c. (sm ! r ! c, r, c)) [0..<length (sm ! r)]) [0..<length sm])"

definition sort_similarity_matrix :: "matrix \<Rightarrow> entry list" where
  "sort_similarity_matrix sm = sort_similarity_list (sim_list sm)"

section \<open>Labelling matches and mismatches\<close>

text \<open>
  The two tests \<^verbatim>\<open>type(l1[i]) == dict and type(l2[j]) == dict\<close> and
  \<^verbatim>\<open>elif type(l1[i]) == list and type(l2[j]) == list\<close>, used on lines 164 to 167 and
  again on lines 201 to 207. \<^verbatim>\<open>and\<close> evaluates \<^verbatim>\<open>l2[j]\<close> only when the left test
  holds, and each subscript raises IndexError out of range.
\<close>

datatype shape_pair =
  BothDict "(scalar \<times> val) list" "(scalar \<times> val) list"
| BothList "val list" "val list"
| Neither

definition dispatch :: "val list \<Rightarrow> nat \<Rightarrow> val list \<Rightarrow> nat \<Rightarrow> error + shape_pair" where
  "dispatch l1 i l2 j =
     (if i < length l1 then
        (case l1 ! i of
           Mapping a \<Rightarrow>
             (if j < length l2 then
                (case l2 ! j of Mapping b \<Rightarrow> Inr (BothDict a b) | _ \<Rightarrow> Inr Neither)
              else Inl IndexError)
         | Sequence a \<Rightarrow>
             (if j < length l2 then
                (case l2 ! j of Sequence b \<Rightarrow> Inr (BothList a b) | _ \<Rightarrow> Inr Neither)
              else Inl IndexError)
         | Scalar s \<Rightarrow> Inr Neither)
      else Inl IndexError)"

text \<open>
  The sets and the queue of step 3. \<^verbatim>\<open>mismatch_set\<close> is a Python set that line 199
  iterates; its iteration order is not specified, so it is kept as a duplicate-free list in
  insertion order and the properties below are stated on its elements, not on their order.
\<close>

record labels =
  seen_l1_indices :: "nat set"
  mismatch_l1_indices :: "nat set"
  seen_l2_indices :: "nat set"
  mismatch_l2_indices :: "nat set"
  mismatch_set :: "segment list"
  to_recurse :: "(nat \<times> nat) list"

definition empty_labels :: labels where
  "empty_labels =
     \<lparr>seen_l1_indices = {}, mismatch_l1_indices = {}, seen_l2_indices = {},
      mismatch_l2_indices = {}, mismatch_set = [], to_recurse = []\<rparr>"

definition set_add :: "'a list \<Rightarrow> 'a \<Rightarrow> 'a list" where
  "set_add xs x = (if x \<in> set xs then xs else xs @ [x])"

text \<open>The body of \<^verbatim>\<open>for elem in similarity_list\<close> (lines 158 to 178).\<close>

definition label_step :: "val list \<Rightarrow> val list \<Rightarrow> entry \<Rightarrow> labels \<Rightarrow> error + labels" where
  "label_step l1 l2 elem st =
     (case elem of (score, r, c) \<Rightarrow>
        if score > 0 \<and> \<not> (r \<in> seen_l1_indices st \<or> c \<in> seen_l2_indices st) then
          (let st' = st\<lparr>seen_l1_indices := insert r (seen_l1_indices st),
                         seen_l2_indices := insert c (seen_l2_indices st)\<rparr>
           in case dispatch l1 r l2 c of
                Inl e \<Rightarrow> Inl e
              | Inr (BothDict a b) \<Rightarrow> Inr (st'\<lparr>to_recurse := to_recurse st' @ [(r, c)]\<rparr>)
              | Inr (BothList a b) \<Rightarrow> Inr (st'\<lparr>to_recurse := to_recurse st' @ [(r, c)]\<rparr>)
              | Inr Neither \<Rightarrow> Inr st')
        else if score = 0 then
          (let st1 = (if r \<notin> seen_l1_indices st
                      then st\<lparr>mismatch_set := set_add (mismatch_set st) (IndexPair (Some r) None),
                              mismatch_l1_indices := insert r (mismatch_l1_indices st)\<rparr>
                      else st);
               st2 = (if c \<notin> seen_l2_indices st1
                      then st1\<lparr>mismatch_set := set_add (mismatch_set st1) (IndexPair None (Some c)),
                               mismatch_l2_indices := insert c (mismatch_l2_indices st1)\<rparr>
                      else st1)
           in Inr st2)
        else Inr st)"

text \<open>Step 4 (lines 181 to 188): indices that are neither seen nor mismatched.\<close>

definition label_stragglers :: "val list \<Rightarrow> val list \<Rightarrow> labels \<Rightarrow> segment list" where
  "label_stragglers l1 l2 st =
     (let labelled_l1 = seen_l1_indices st \<union> mismatch_l1_indices st;
          ms1 = fold (\<lambda>i ms. if i \<notin> labelled_l1 then set_add ms (IndexPair (Some i) None) else ms)
                  [0..<length l1] (mismatch_set st);
          labelled_l2 = seen_l2_indices st \<union> mismatch_l2_indices st
      in fold (\<lambda>i ms. if i \<notin> labelled_l2 then set_add ms (IndexPair None (Some i)) else ms)
           [0..<length l2] ms1)"

text \<open>Steps 1 to 4 of \<^verbatim>\<open>list_diff\<close>: the mismatch set and the queue of pairs to recurse on.\<close>

definition label_matches :: "val list \<Rightarrow> val list \<Rightarrow> error + segment list \<times> (nat \<times> nat) list" where
  "label_matches l1 l2 =
     (case create_similarity_matrix l1 l2 of
        Inl e \<Rightarrow> Inl e
      | Inr similarity_matrix \<Rightarrow>
          (let similarity_list = sort_similarity_matrix similarity_matrix
           in case fold_err (label_step l1 l2) similarity_list empty_labels of
                Inl e \<Rightarrow> Inl e
              | Inr st \<Rightarrow> Inr (label_stragglers l1 l2 st, to_recurse st)))"

section \<open>The two differs\<close>

text \<open>
  A call either raises or returns its paths; on the way it may print. The outcome is the
  result together with the lines printed.
\<close>

type_synonym 'a outcome = "(error + 'a) \<times> string list"

definition then_do :: "'a outcome \<Rightarrow> ('a \<Rightarrow> 'b outcome) \<Rightarrow> 'b outcome" where
  "then_do m f =
     (case m of
        (Inl e, out) \<Rightarrow> (Inl e, out)
      | (Inr x, out) \<Rightarrow> (case f x of (r, out') \<Rightarrow> (r, out @ out')))"

fun for_loop :: "'a list \<Rightarrow> 's \<Rightarrow> ('a \<Rightarrow> 's \<Rightarrow> 's outcome) \<Rightarrow> 's outcome" where
  "for_loop [] s body = (Inr s, [])"
| "for_loop (x # xs) s body = then_do (body x s) (\<lambda>s'. for_loop xs s' body)"

lemma then_do_cong [fundef_cong]:
  assumes "m = m'" and "\<And>x out. m' = (Inr x, out) \<Longrightarrow> f x = f' x"
  shows "then_do m f = then_do m' f'"
  using assms by (auto simp: then_do_def split: prod.splits sum.splits)

lemma for_loop_cong [fundef_cong]:
  assumes "xs = ys" and "s = t" and "\<And>x a. x \<in> set ys \<Longrightarrow> body x a = body' x a"
  shows "for_loop xs s body = for_loop ys t body'"
  using assms(3) unfolding assms(1,2)
proof (induction ys arbitrary: t)
  case Nil
  show ?case by simp
next
  case (Cons y ys)
  have "body y t = body' y t" using Cons.prems by simp
  moreover have "\<And>s'. for_loop ys s' body = for_loop ys s' body'"
    using Cons.IH Cons.prems by simp
  ultimately show ?case by simp
qed

text \<open>The line printed on line 213.\<close>

definition types_do_not_match :: string where
  \<open>types_do_not_match =
     ''case for "to_recurse" index types do not match. If you hit this, something is wrong''\<close>

definition dict_get :: "(scalar \<times> val) list \<Rightarrow> scalar \<Rightarrow> val" where
  "dict_get d k = (case map_of d k of None \<Rightarrow> Scalar SNone | Some v \<Rightarrow> v)"

text \<open>
  \<^verbatim>\<open>!=\<close> as line 239 uses it. The line is reached only when the two values are not two
  dicts and not two lists. Values of different shapes are unequal; two scalars are unequal
  when they differ, and NaN is unequal to everything, the same object included.
\<close>

fun is_nan :: "val \<Rightarrow> bool" where
  "is_nan (Scalar (SNaN n)) = True"
| "is_nan v = False"

definition py_ne :: "val \<Rightarrow> val \<Rightarrow> bool" where
  "py_ne x y = (x \<noteq> y \<or> is_nan x)"

text \<open>
  The body of \<^verbatim>\<open>for k in keys\<close> (lines 234 to 240), on the triple
  \<^verbatim>\<open>(dict_keys_to_recurse, list_keys_to_recurse, return_values)\<close>.
\<close>

definition classify ::
  "(scalar \<times> val) list \<Rightarrow> (scalar \<times> val) list \<Rightarrow> scalar \<Rightarrow>
   scalar list \<times> scalar list \<times> path list \<Rightarrow> scalar list \<times> scalar list \<times> path list" where
  "classify d1 d2 k acc =
     (case acc of (dict_keys_to_recurse, list_keys_to_recurse, return_values) \<Rightarrow>
        if is_dict (dict_get d1 k) \<and> is_dict (dict_get d2 k) then
          (dict_keys_to_recurse @ [k], list_keys_to_recurse, return_values)
        else if is_list (dict_get d1 k) \<and> is_list (dict_get d2 k) then
          (dict_keys_to_recurse, list_keys_to_recurse @ [k], return_values)
        else if py_ne (dict_get d1 k) (dict_get d2 k) then
          (dict_keys_to_recurse, list_keys_to_recurse, return_values @ [[Key k]])
        else acc)"

text \<open>
  \<^verbatim>\<open>set(d1.keys()).union(set(d2.keys()))\<close>: each key once; the order in which Python
  iterates the set is not specified, and the model takes the keys of \<^verbatim>\<open>d1\<close> then
  those of \<^verbatim>\<open>d2\<close>.
\<close>

definition dict_keys :: "(scalar \<times> val) list \<Rightarrow> (scalar \<times> val) list \<Rightarrow> scalar list" where
  "dict_keys d1 d2 = remdups (map fst d1 @ map fst d2)"

text \<open>
  \<^verbatim>\<open>d1[k]\<close> and \<^verbatim>\<open>d2[k]\<close> on lines 243 and 248: KeyError for a missing key; a value
  that is not a dict has no \<^verbatim>\<open>keys()\<close> (AttributeError), and one that is not a list is
  not what \<^verbatim>\<open>list_diff\<close> takes (TypeError). The loops only reach keys that hold a dict,
  or a list, in both arguments, so none of the three is ever raised (see the section on
  IndexError).
\<close>

definition dict_items :: "(scalar \<times> val) list \<Rightarrow> scalar \<Rightarrow> error + (scalar \<times> val) list" where
  "dict_items d k =
     (case map_of d k of None \<Rightarrow> Inl KeyError | Some (Mapping a) \<Rightarrow> Inr a
      | Some v \<Rightarrow> Inl AttributeError)"

definition list_items :: "(scalar \<times> val) list \<Rightarrow> scalar \<Rightarrow> error + val list" where
  "list_items d k =
     (case map_of d k of None \<Rightarrow> Inl KeyError | Some (Sequence a) \<Rightarrow> Inr a
      | Some v \<Rightarrow> Inl TypeError)"

definition pair_segment :: "nat \<times> nat \<Rightarrow> segment" where
  "pair_segment elem = IndexPair (Some (fst elem)) (Some (snd elem))"

lemma dispatch_dict_size:
  "dispatch l1 i l2 j = Inr (BothDict a b) \<Longrightarrow> size (Mapping a) < size (Sequence l1)"
proof -
  assume h: "dispatch l1 i l2 j = Inr (BothDict a b)"
  then have "i < length l1" and "l1 ! i = Mapping a"
    by (auto simp: dispatch_def split: if_splits val.splits)
  then have "Mapping a \<in> set l1" by (metis nth_mem)
  then have "size (Mapping a) \<le> size_list size l1" by (simp add: size_list_estimation')
  then show ?thesis by simp
qed

lemma dispatch_list_size:
  "dispatch l1 i l2 j = Inr (BothList a b) \<Longrightarrow> size (Sequence a) < size (Sequence l1)"
proof -
  assume h: "dispatch l1 i l2 j = Inr (BothList a b)"
  then have "i < length l1" and "l1 ! i = Sequence a"
    by (auto simp: dispatch_def split: if_splits val.splits)
  then have "Sequence a \<in> set l1" by (metis nth_mem)
  then have "size (Sequence a) \<le> size_list size l1" by (simp add: size_list_estimation')
  then show ?thesis by simp
qed

lemma map_of_size:
  "map_of d k = Some v \<Longrightarrow> size v < size (Mapping d)"
proof -
  assume "map_of d k = Some v"
  then have "(k, v) \<in> set d" by (rule map_of_SomeD)
  then have "size_prod (\<lambda>x. 0) size (k, v) \<le> size_list (size_prod (\<lambda>x. 0) size) d"
    by (simp add: size_list_estimation')
  then show ?thesis by simp
qed

lemma dict_items_size: "dict_items d k = Inr a \<Longrightarrow> size (Mapping a) < size (Mapping d)"
  by (auto simp: dict_items_def split: option.splits val.splits dest: map_of_size)

lemma list_items_size: "list_items d k = Inr a \<Longrightarrow> size (Sequence a) < size (Mapping d)"
  by (auto simp: list_items_def split: option.splits val.splits dest: map_of_size)

function list_diff :: "val list \<Rightarrow> val list \<Rightarrow> path list outcome"
  and dict_diff :: "(scalar \<times> val) list \<Rightarrow> (scalar \<times> val) list \<Rightarrow> path list outcome" where
  "list_diff l1 l2 =
     (case label_matches l1 l2 of
        Inl e \<Rightarrow> (Inl e, [])
      | Inr (mismatches0, queue) \<Rightarrow>
          for_loop queue (map (\<lambda>elem. [elem]) mismatches0)
            (\<lambda>elem mismatches.
               case dispatch l1 (fst elem) l2 (snd elem) of
                 Inl e \<Rightarrow> (Inl e, [])
               | Inr (BothDict a b) \<Rightarrow>
                   then_do (dict_diff a b)
                     (\<lambda>tmp_non_match_list.
                        (Inr (mismatches @ map (\<lambda>retvals. pair_segment elem # retvals)
                                tmp_non_match_list), []))
               | Inr (BothList a b) \<Rightarrow>
                   then_do (list_diff a b)
                     (\<lambda>tmp_non_match_list.
                        (Inr (mismatches @ map (\<lambda>retvals. pair_segment elem # retvals)
                                tmp_non_match_list), []))
               | Inr Neither \<Rightarrow> (Inr mismatches, [types_do_not_match])))"
| "dict_diff d1 d2 =
     (case fold (classify d1 d2) (dict_keys d1 d2) ([], [], []) of
        (dict_keys_to_recurse, list_keys_to_recurse, return_values) \<Rightarrow>
          then_do
            (for_loop dict_keys_to_recurse return_values
               (\<lambda>k return_values.
                  case dict_items d1 k of
                    Inl e \<Rightarrow> (Inl e, [])
                  | Inr a \<Rightarrow>
                      (case dict_items d2 k of
                         Inl e \<Rightarrow> (Inl e, [])
                       | Inr b \<Rightarrow>
                           then_do (dict_diff a b)
                             (\<lambda>tmp_non_match_list.
                                (Inr (return_values @ map (\<lambda>retvals. Key k # retvals)
                                        tmp_non_match_list), [])))))
            (\<lambda>return_values.
               for_loop list_keys_to_recurse return_values
                 (\<lambda>k return_values.
                    case list_items d1 k of
                      Inl e \<Rightarrow> (Inl e, [])
                    | Inr a \<Rightarrow>
                        (case list_items d2 k of
                           Inl e \<Rightarrow> (Inl e, [])
                         | Inr b \<Rightarrow>
                             then_do (list_diff a b)
                               (\<lambda>tmp_non_match_list.
                                  (Inr (return_values @ map (\<lambda>retvals. Key k # retvals)
                                          tmp_non_match_list), []))))))"
  by pat_completeness auto
termination
  by (relation "measure (\<lambda>x. case x of Inl (l1, l2) \<Rightarrow> size (Sequence l1)
                                     | Inr (d1, d2) \<Rightarrow> size (Mapping d1))")
     (auto dest: dispatch_dict_size dispatch_list_size dict_items_size list_items_size)

declare list_diff.simps [simp del] dict_diff.simps [simp del]

section \<open>Notions used in the properties\<close>

text \<open>
  The list that the joining loop appends to \<^verbatim>\<open>sorted_list\<close>, as a function of the two
  halves.
\<close>

fun merged :: "entry list \<Rightarrow> entry list \<Rightarrow> entry list" where
  "merged [] h2 = h2"
| "merged (a # h1) [] = a # h1"
| "merged (a # h1) (b # h2) =
     (if fst a > fst b then a # merged h1 (b # h2) else b # merged (a # h1) h2)"

abbreviation descending :: "entry list \<Rightarrow> bool" where
  "descending xs \<equiv> sorted_wrt (\<lambda>a b. fst a \<ge> fst b) xs"

text \<open>
  The ranking as the specification words it: the entries in row-major order, sorted by
  score descending with a stable sort (\<open>sort_key\<close> is the stable insertion sort of the
  library).
\<close>

definition stable_ranking :: "matrix \<Rightarrow> entry list" where
  "stable_ranking sm = sort_key (\<lambda>e. - fst e) (sim_list sm)"

text \<open>
  The bodies of the two recursion loops of \<^verbatim>\<open>dict_diff\<close> (lines 242 to 250).
\<close>

definition recurse_on_dict_key ::
  "(scalar \<times> val) list \<Rightarrow> (scalar \<times> val) list \<Rightarrow> scalar \<Rightarrow> path list \<Rightarrow> path list outcome" where
  "recurse_on_dict_key d1 d2 k return_values =
     (case dict_items d1 k of
        Inl e \<Rightarrow> (Inl e, [])
      | Inr a \<Rightarrow>
          (case dict_items d2 k of
             Inl e \<Rightarrow> (Inl e, [])
           | Inr b \<Rightarrow>
               then_do (dict_diff a b)
                 (\<lambda>tmp_non_match_list.
                    (Inr (return_values @ map (\<lambda>retvals. Key k # retvals)
                            tmp_non_match_list), []))))"

definition recurse_on_list_key ::
  "(scalar \<times> val) list \<Rightarrow> (scalar \<times> val) list \<Rightarrow> scalar \<Rightarrow> path list \<Rightarrow> path list outcome" where
  "recurse_on_list_key d1 d2 k return_values =
     (case list_items d1 k of
        Inl e \<Rightarrow> (Inl e, [])
      | Inr a \<Rightarrow>
          (case list_items d2 k of
             Inl e \<Rightarrow> (Inl e, [])
           | Inr b \<Rightarrow>
               then_do (list_diff a b)
                 (\<lambda>tmp_non_match_list.
                    (Inr (return_values @ map (\<lambda>retvals. Key k # retvals)
                            tmp_non_match_list), []))))"

text \<open>
  A dict lacks the key or maps it to \<^verbatim>\<open>None\<close>. No path of a list of paths starts with
  the key.
\<close>

definition null_or_absent :: "(scalar \<times> val) list \<Rightarrow> scalar \<Rightarrow> bool" where
  "null_or_absent d k = (map_of d k = None \<or> map_of d k = Some (Scalar SNone))"

definition no_path_for :: "scalar \<Rightarrow> path list \<Rightarrow> bool" where
  "no_path_for k ps = (\<forall>p \<in> set ps. p \<noteq> [] \<and> hd p \<noteq> Key k)"

text \<open>
  What one element of \<^verbatim>\<open>l1\<close> adds to column \<open>c\<close> of its row: the number of times
  \<open>c\<close> occurs in the lookup lists that step 3 walks for the element.
\<close>

fun item_bucket :: "buckets \<Rightarrow> scalar \<times> val \<Rightarrow> nat list" where
  "item_bucket b (k, Scalar s) = get_list (key_value_pairs b) (k, s)"
| "item_bucket b (k, v) = get_list (complex_keys b) k"

fun hits :: "buckets \<Rightarrow> val \<Rightarrow> nat \<Rightarrow> int" where
  "hits b (Mapping d) c = (\<Sum>kv\<leftarrow>d. int (count_list (item_bucket b kv) c))"
| "hits b (Sequence l) c = int (count_list (get_list (list_lengths b) (length l)) c)"
| "hits b (Scalar s) c = int (count_list (get_list (simple_values b) s) c)"

text \<open>
  The matrix \<open>M'\<close> has the shape of \<open>M\<close> and each entry of \<open>M\<close> increased by \<open>g\<close>.
\<close>

definition adds :: "matrix \<Rightarrow> matrix \<Rightarrow> (nat \<Rightarrow> nat \<Rightarrow> int) \<Rightarrow> bool" where
  "adds M M' g \<longleftrightarrow>
     map length M' = map length M \<and>
     (\<forall>r c. r < length M \<longrightarrow> c < length (M ! r) \<longrightarrow> M' ! r ! c = M ! r ! c + g r c)"

text \<open>
  The score of a pair of elements, read off the rules of the docstring: one for two equal
  scalars, one for two lists of the same length, and for two dicts the number of pairs of
  items with the same key and either two complex values or two equal scalar values.
\<close>

fun item_matches :: "scalar \<times> val \<Rightarrow> scalar \<times> val \<Rightarrow> bool" where
  "item_matches (k, Scalar s) (k', Scalar s') = (k = k' \<and> s = s')"
| "item_matches (k, Scalar s) (k', v') = False"
| "item_matches (k, v) (k', Scalar s') = False"
| "item_matches (k, v) (k', v') = (k = k')"

fun pair_score :: "val \<Rightarrow> val \<Rightarrow> int" where
  "pair_score (Scalar a) (Scalar b) = (if a = b then 1 else 0)"
| "pair_score (Sequence xs) (Sequence ys) = (if length xs = length ys then 1 else 0)"
| "pair_score (Mapping d1) (Mapping d2) = (\<Sum>kv\<leftarrow>d1. int (length (filter (item_matches kv) d2)))"
| "pair_score x y = 0"

text \<open>The three shapes of a value.\<close>

datatype shape = ScalarShape | MappingShape | SequenceShape

fun shape_of :: "val \<Rightarrow> shape" where
  "shape_of (Scalar s) = ScalarShape"
| "shape_of (Mapping d) = MappingShape"
| "shape_of (Sequence l) = SequenceShape"

text \<open>Every index stored in a lookup table is below \<open>n\<close>.\<close>

definition below :: "('k \<rightharpoonup> nat list) \<Rightarrow> nat \<Rightarrow> bool" where
  "below m n \<longleftrightarrow> (\<forall>k. \<forall>j \<in> set (get_list m k). j < n)"

definition buckets_below :: "buckets \<Rightarrow> nat \<Rightarrow> bool" where
  "buckets_below b n \<longleftrightarrow>
     below (simple_values b) n \<and> below (key_value_pairs b) n \<and>
     below (complex_keys b) n \<and> below (list_lengths b) n"

text \<open>A dict whose keys are all different; scalars and lists qualify.\<close>

fun distinct_keys :: "val \<Rightarrow> bool" where
  "distinct_keys (Mapping d) = distinct (map fst d)"
| "distinct_keys v = True"

text \<open>
  Row-major order of two index pairs, and the order in which the ranking lists two entries:
  the higher score first and, for equal scores, the later index pair first.
\<close>

fun idx_less :: "nat \<times> nat \<Rightarrow> nat \<times> nat \<Rightarrow> bool" where
  "idx_less (r, c) (r', c') = (r < r' \<or> (r = r' \<and> c < c'))"

definition ranks_before :: "entry \<Rightarrow> entry \<Rightarrow> bool" where
  "ranks_before a b = (fst a > fst b \<or> (fst a = fst b \<and> idx_less (snd b) (snd a)))"

text \<open>
  The state of the labelling loop while a list is matched against itself, after the
  entries \<open>pre\<close>: the same indices are seen on both sides, nothing is a mismatch, the
  queue holds pairs \<open>(i, i)\<close>, and an index whose own entry has gone by is seen.
\<close>

definition diag_inv :: "val list \<Rightarrow> entry list \<Rightarrow> labels \<Rightarrow> bool" where
  "diag_inv l pre st \<longleftrightarrow>
     seen_l2_indices st = seen_l1_indices st \<and>
     mismatch_l1_indices st = {} \<and> mismatch_l2_indices st = {} \<and> mismatch_set st = [] \<and>
     (\<forall>elem \<in> set (to_recurse st). fst elem = snd elem \<and> fst elem < length l) \<and>
     (\<forall>i < length l. (pair_score (l ! i) (l ! i), i, i) \<in> set pre \<longrightarrow> i \<in> seen_l1_indices st)"

text \<open>No list of the value, at any depth, has an empty dict among its elements.\<close>

fun no_empty_dict_in_list :: "val \<Rightarrow> bool" where
  "no_empty_dict_in_list (Scalar s) = True"
| "no_empty_dict_in_list (Mapping d) = list_all (\<lambda>kv. no_empty_dict_in_list (snd kv)) d"
| "no_empty_dict_in_list (Sequence l) =
     list_all (\<lambda>x. x \<noteq> Mapping [] \<and> no_empty_dict_in_list x) l"

text \<open>
  What \<^verbatim>\<open>dict_diff\<close> returns for one key, as a function of the two values
  \<^verbatim>\<open>d1.get(k, None)\<close> and \<^verbatim>\<open>d2.get(k, None)\<close>: the paths of the recursive call with
  the key in front for two dicts or two lists, else the path \<^verbatim>\<open>[k]\<close> when the values
  are unequal. An error of the recursive call is the error of the key.
\<close>

fun paths_at :: "scalar \<Rightarrow> val \<Rightarrow> val \<Rightarrow> error + path list" where
  "paths_at k (Mapping a) (Mapping b) = map_sum id (map ((#) (Key k))) (fst (dict_diff a b))"
| "paths_at k (Sequence a) (Sequence b) = map_sum id (map ((#) (Key k))) (fst (list_diff a b))"
| "paths_at k v1 v2 = Inr (if py_ne v1 v2 then [[Key k]] else [])"

definition key_paths :: "(scalar \<times> val) list \<Rightarrow> (scalar \<times> val) list \<Rightarrow> scalar \<Rightarrow> error + path list" where
  "key_paths d1 d2 k = paths_at k (dict_get d1 k) (dict_get d2 k)"

text \<open>The tests of lines 235 and 237.\<close>

definition both_dicts :: "(scalar \<times> val) list \<Rightarrow> (scalar \<times> val) list \<Rightarrow> scalar \<Rightarrow> bool" where
  "both_dicts d1 d2 k = (is_dict (dict_get d1 k) \<and> is_dict (dict_get d2 k))"

definition both_lists :: "(scalar \<times> val) list \<Rightarrow> (scalar \<times> val) list \<Rightarrow> scalar \<Rightarrow> bool" where
  "both_lists d1 d2 k = (is_list (dict_get d1 k) \<and> is_list (dict_get d2 k))"

text \<open>
  A loop that appends the paths of each key to the result, and stops at the first key whose
  paths are an error.
\<close>

fun collect :: "('k \<Rightarrow> error + path list) \<Rightarrow> 'k list \<Rightarrow> path list \<Rightarrow> error + path list" where
  "collect r [] s = Inr s"
| "collect r (k # ks) s = (case r k of Inl e \<Rightarrow> Inl e | Inr ps \<Rightarrow> collect r ks (s @ ps))"

text \<open>No NaN in the value, at any depth: no list element, dict value or dict key is one.\<close>

fun not_nan :: "scalar \<Rightarrow> bool" where
  "not_nan (SNaN n) = False"
| "not_nan s = True"

fun no_nan :: "val \<Rightarrow> bool" where
  "no_nan (Scalar s) = not_nan s"
| "no_nan (Mapping d) = list_all (\<lambda>kv. not_nan (fst kv) \<and> no_nan (snd kv)) d"
| "no_nan (Sequence l) = list_all no_nan l"

text \<open>
  Step 5 of \<^verbatim>\<open>list_diff\<close> on its own: the body of \<^verbatim>\<open>for elem in to_recurse\<close>
  (lines 201 to 213) and the loop, for any queue.
\<close>

definition recurse_on ::
  "val list \<Rightarrow> val list \<Rightarrow> nat \<times> nat \<Rightarrow> path list \<Rightarrow> path list outcome" where
  "recurse_on l1 l2 elem mismatches =
     (case dispatch l1 (fst elem) l2 (snd elem) of
        Inl e \<Rightarrow> (Inl e, [])
      | Inr (BothDict a b) \<Rightarrow>
          then_do (dict_diff a b)
            (\<lambda>tmp_non_match_list.
               (Inr (mismatches @ map (\<lambda>retvals. pair_segment elem # retvals)
                       tmp_non_match_list), []))
      | Inr (BothList a b) \<Rightarrow>
          then_do (list_diff a b)
            (\<lambda>tmp_non_match_list.
               (Inr (mismatches @ map (\<lambda>retvals. pair_segment elem # retvals)
                       tmp_non_match_list), []))
      | Inr Neither \<Rightarrow> (Inr mismatches, [types_do_not_match]))"

definition run_recursions ::
  "val list \<Rightarrow> val list \<Rightarrow> (nat \<times> nat) list \<Rightarrow> path list \<Rightarrow> path list outcome" where
  "run_recursions l1 l2 queue mismatches = for_loop queue mismatches (recurse_on l1 l2)"

text \<open>
  Two elements of the same complex shape at the indices of a pair: both dicts or both
  lists.
\<close>

definition same_shape_pair :: "val list \<Rightarrow> val list \<Rightarrow> nat \<times> nat \<Rightarrow> bool" where
  "same_shape_pair l1 l2 elem =
     (fst elem < length l1 \<and> snd elem < length l2 \<and>
      ((is_dict (l1 ! fst elem) \<and> is_dict (l2 ! snd elem)) \<or>
       (is_list (l1 ! fst elem) \<and> is_list (l2 ! snd elem))))"

section \<open>The shape of the similarity matrix\<close>

text \<open>
  C1. The docstring of \<^verbatim>\<open>_create_similarity_matrix\<close> promises a matrix indexed
  \<^verbatim>\<open>matrix[l1_index][l2_index]\<close>, one row per element of \<^verbatim>\<open>l1\<close> and one column per
  element of \<^verbatim>\<open>l2\<close>, for all lengths. Line 32 allocates \<^verbatim>\<open>len(l2)\<close> rows of
  \<^verbatim>\<open>len(l1)\<close> columns instead, and step 3 still writes at \<^verbatim>\<open>[l1_index][l2_index]\<close>.
  With \<^verbatim>\<open>l1 = [1, 2, 2]\<close> and \<^verbatim>\<open>l2 = [2, 1]\<close> the write for the third element of
  \<^verbatim>\<open>l1\<close> has no row and raises IndexError; with \<^verbatim>\<open>l1 = [1]\<close> and
  \<^verbatim>\<open>l2 = [2, 3]\<close> nothing is written and the result has two rows of one column, not
  one row of two columns.
\<close>

theorem create_similarity_matrix_transposed:
  "create_similarity_matrix
     [Scalar (SInt 1), Scalar (SInt 2), Scalar (SInt 2)] [Scalar (SInt 2), Scalar (SInt 1)]
     = Inl IndexError
   \<and> create_similarity_matrix [Scalar (SInt 1)] [Scalar (SInt 2), Scalar (SInt 3)]
     = Inr [[0], [0]]"
  by code_simp

text \<open>
  C4. The claim has \<^verbatim>\<open>list_diff([1, 2, 2], [2, 1])\<close> return a result that reports one of
  the two left indices holding 2 as a one-sided mismatch. The call raises IndexError
  instead: the similarity matrix has two rows (one per element of \<^verbatim>\<open>l2\<close>), and the
  write for \<^verbatim>\<open>l1[2]\<close> addresses a third.
\<close>

theorem list_diff_longer_left_raises:
  "list_diff [Scalar (SInt 1), Scalar (SInt 2), Scalar (SInt 2)]
     [Scalar (SInt 2), Scalar (SInt 1)] = (Inl IndexError, [])"
  by code_simp

section \<open>One-sided mismatches\<close>

text \<open>
  C5, as stated: \<^verbatim>\<open>dict_diff({'a': [1, 2, 3, 5]}, {'a': [1, 2, 4, 5]})\<close> returns exactly
  one path. It returns two.
\<close>

theorem dict_diff_scenario_b_length:
  "map_sum id length
     (fst (dict_diff
        [(SStr ''a'', Sequence [Scalar (SInt 1), Scalar (SInt 2), Scalar (SInt 3), Scalar (SInt 5)])]
        [(SStr ''a'', Sequence [Scalar (SInt 1), Scalar (SInt 2), Scalar (SInt 4), Scalar (SInt 5)])]))
   = Inr 2"
  by code_simp

text \<open>
  C5, amended: the call returns exactly two paths and prints nothing. Each path is the key
  \<^verbatim>\<open>'a'\<close> followed by a one-sided index pair: \<^verbatim>\<open>(2, None)\<close> for the unmatched 3 on the
  left, \<^verbatim>\<open>(None, 2)\<close> for the unmatched 4 on the right.
\<close>

theorem dict_diff_scenario_b_paths:
  "\<exists>ps. dict_diff
          [(SStr ''a'', Sequence [Scalar (SInt 1), Scalar (SInt 2), Scalar (SInt 3), Scalar (SInt 5)])]
          [(SStr ''a'', Sequence [Scalar (SInt 1), Scalar (SInt 2), Scalar (SInt 4), Scalar (SInt 5)])]
        = (Inr ps, [])
      \<and> length ps = 2
      \<and> set ps = {[Key (SStr ''a''), IndexPair (Some 2) None],
                  [Key (SStr ''a''), IndexPair None (Some 2)]}"
proof -
  have "dict_diff
          [(SStr ''a'', Sequence [Scalar (SInt 1), Scalar (SInt 2), Scalar (SInt 3), Scalar (SInt 5)])]
          [(SStr ''a'', Sequence [Scalar (SInt 1), Scalar (SInt 2), Scalar (SInt 4), Scalar (SInt 5)])]
        = (Inr [[Key (SStr ''a''), IndexPair None (Some 2)],
                [Key (SStr ''a''), IndexPair (Some 2) None]], [])"
    by code_simp
  then show ?thesis by auto
qed

subsection \<open>An empty list on one side\<close>

lemma fold_set_add_fresh:
  assumes "inj f"
  shows "fold (\<lambda>i ms. set_add ms (f i)) [0..<n] [] = map f [0..<n]"
proof (induction n)
  case 0
  show ?case by simp
next
  case (Suc n)
  have "f n \<notin> set (map f [0..<n])"
    using assms by (auto dest: injD)
  then show ?case using Suc by (simp add: set_add_def)
qed

lemma incr_all_nil: "incr_all i [] M = Inr M"
  by (simp add: incr_all_def)

lemma score_item_empty: "score_item empty_buckets i kv M = Inr M"
  by (cases "(empty_buckets, i, kv, M)" rule: score_item.cases)
     (simp_all add: empty_buckets_def get_list_def incr_all_nil)

lemma fold_err_id: "(\<And>x s. x \<in> set xs \<Longrightarrow> f x s = Inr s) \<Longrightarrow> fold_err f xs s = Inr s"
  by (induction xs) simp_all

lemma score_elem_empty: "score_elem empty_buckets i x M = Inr M"
  by (cases x)
     (simp_all add: score_item_empty fold_err_id,
      simp_all add: empty_buckets_def get_list_def incr_all_nil)

lemma create_similarity_matrix_right_empty: "create_similarity_matrix S [] = Inr []"
  by (simp add: create_similarity_matrix_def parse_l2_def score_elem_empty fold_err_id)

lemma create_similarity_matrix_left_empty:
  "create_similarity_matrix [] S = Inr (replicate (length S) [])"
  by (simp add: create_similarity_matrix_def)

lemma sim_list_no_columns: "sim_list (replicate m []) = []"
  by (simp add: sim_list_def)

lemma sort_similarity_list_nil: "sort_similarity_list [] = []"
  by (simp add: sort_similarity_list.simps)

lemma label_matches_left_empty:
  "label_matches [] S = Inr (map (\<lambda>i. IndexPair None (Some i)) [0..<length S], [])"
  by (simp add: label_matches_def create_similarity_matrix_left_empty sort_similarity_matrix_def
      sim_list_no_columns sort_similarity_list_nil label_stragglers_def empty_labels_def
      fold_set_add_fresh inj_def)

lemma label_matches_right_empty:
  "label_matches S [] = Inr (map (\<lambda>i. IndexPair (Some i) None) [0..<length S], [])"
  by (simp add: label_matches_def create_similarity_matrix_right_empty sort_similarity_matrix_def
      sim_list_def sort_similarity_list_nil label_stragglers_def empty_labels_def
      fold_set_add_fresh inj_def)

text \<open>
  C9. Diffing the empty list against a list \<open>S\<close>, in either order, queues no pair for
  recursion (the second component of \<open>label_matches\<close> is empty), prints nothing and returns
  exactly one path per element of \<open>S\<close>: the single segment \<^verbatim>\<open>(None, i)\<close> when \<open>S\<close> is on
  the right, \<^verbatim>\<open>(i, None)\<close> when it is on the left. The paths are compared as multisets,
  since the order in which Python iterates \<^verbatim>\<open>mismatch_set\<close> is not specified. The
  statement also covers the empty \<open>S\<close>, where there is no path.
\<close>

theorem list_diff_against_empty:
  "(\<exists>ms. label_matches [] S = Inr (ms, [])
         \<and> mset ms = mset (map (\<lambda>i. IndexPair None (Some i)) [0..<length S]))
   \<and> (\<exists>ps. list_diff [] S = (Inr ps, [])
         \<and> mset ps = mset (map (\<lambda>i. [IndexPair None (Some i)]) [0..<length S]))
   \<and> (\<exists>ms. label_matches S [] = Inr (ms, [])
         \<and> mset ms = mset (map (\<lambda>i. IndexPair (Some i) None) [0..<length S]))
   \<and> (\<exists>ps. list_diff S [] = (Inr ps, [])
         \<and> mset ps = mset (map (\<lambda>i. [IndexPair (Some i) None]) [0..<length S]))"
  by (simp add: list_diff.simps label_matches_left_empty label_matches_right_empty comp_def)

section \<open>The recursion queue\<close>

lemma list_diff_unfold:
  "list_diff l1 l2 =
     (case label_matches l1 l2 of
        Inl e \<Rightarrow> (Inl e, [])
      | Inr (mismatches0, queue) \<Rightarrow>
          run_recursions l1 l2 queue (map (\<lambda>elem. [elem]) mismatches0))"
  unfolding run_recursions_def recurse_on_def list_diff.simps [of l1 l2] ..

lemma fold_err_invariant:
  assumes "fold_err f xs s = Inr s'" and "I s"
    and "\<And>x t t'. x \<in> set xs \<Longrightarrow> I t \<Longrightarrow> f x t = Inr t' \<Longrightarrow> I t'"
  shows "I s'"
  using assms
proof (induction xs arbitrary: s)
  case Nil
  then show ?case by simp
next
  case (Cons x xs)
  then obtain t where t: "f x s = Inr t" and r: "fold_err f xs t = Inr s'"
    by (auto split: sum.splits)
  have "I t" using Cons.prems(2,3) t by auto
  then show ?case using Cons.IH [OF r] Cons.prems(3) by auto
qed

lemma dispatch_same_shape:
  "same_shape_pair l1 l2 (r, c) \<longleftrightarrow>
     ((\<exists>a b. dispatch l1 r l2 c = Inr (BothDict a b)) \<or>
      (\<exists>a b. dispatch l1 r l2 c = Inr (BothList a b)))"
  by (cases "l1 ! r"; cases "l2 ! c") (auto simp: same_shape_pair_def dispatch_def)

lemma label_step_queue:
  assumes "label_step l1 l2 e st = Inr st'"
    and "\<forall>x \<in> set (to_recurse st). same_shape_pair l1 l2 x"
  shows "\<forall>x \<in> set (to_recurse st'). same_shape_pair l1 l2 x"
proof -
  obtain score r c where e: "e = (score, r, c)" by (cases e)
  show ?thesis
    using assms unfolding e label_step_def
    by (auto simp: Let_def dispatch_same_shape split: if_splits sum.splits shape_pair.splits)
qed

lemma label_matches_queue:
  assumes "label_matches l1 l2 = Inr (ms, q)"
  shows "\<forall>elem \<in> set q. same_shape_pair l1 l2 elem"
proof -
  from assms obtain sm st where
    st: "fold_err (label_step l1 l2) (sort_similarity_matrix sm) empty_labels = Inr st"
    and q: "q = to_recurse st"
    by (auto simp: label_matches_def Let_def split: sum.splits)
  have "\<forall>x \<in> set (to_recurse st). same_shape_pair l1 l2 x"
    by (rule fold_err_invariant [OF st, where I = "\<lambda>s. \<forall>x \<in> set (to_recurse s). same_shape_pair l1 l2 x"])
       (auto simp: empty_labels_def intro: label_step_queue [rule_format])
  then show ?thesis using q by simp
qed

lemma then_do_Inl [simp]: "then_do (Inl e, out) f = (Inl e, out)"
  by (simp add: then_do_def)

lemma then_do_Inr [simp]: "then_do (Inr x, out) f = (fst (f x), out @ snd (f x))"
  by (simp add: then_do_def split: prod.splits)

lemma snd_then_do:
  assumes "snd m = []" and "\<And>x out. m = (Inr x, out) \<Longrightarrow> snd (f x) = []"
  shows "snd (then_do m f) = []"
proof (cases m)
  case (Pair r out)
  then show ?thesis using assms by (cases r) simp_all
qed

lemma snd_for_loop:
  assumes "\<And>x s. x \<in> set xs \<Longrightarrow> snd (body x s) = []"
  shows "snd (for_loop xs s body) = []"
  using assms
proof (induction xs arbitrary: s)
  case Nil
  show ?case by simp
next
  case (Cons x xs)
  have "snd (body x s) = []" using Cons.prems by simp
  moreover have "\<And>s'. snd (for_loop xs s' body) = []"
    using Cons.IH Cons.prems by simp
  ultimately show ?case by (simp add: snd_then_do)
qed

lemma differs_print_nothing:
  shows list_diff_prints_nothing: "snd (list_diff l1 l2) = []"
    and dict_diff_prints_nothing: "snd (dict_diff d1 d2) = []"
proof (induction l1 l2 and d1 d2 rule: list_diff_dict_diff.induct)
  case (1 l1 l2)
  show ?case
  proof (cases "label_matches l1 l2")
    case (Inl e)
    then show ?thesis by (simp add: list_diff_unfold)
  next
    case (Inr p)
    obtain ms q where p: "p = (ms, q)" by (cases p)
    have shapes: "\<forall>elem \<in> set q. same_shape_pair l1 l2 elem"
      using label_matches_queue Inr p by simp
    have "snd (recurse_on l1 l2 x s) = []" if x: "x \<in> set q" for x s
    proof -
      have "same_shape_pair l1 l2 (fst x, snd x)" using shapes x by simp
      then consider (dicts) a b where "dispatch l1 (fst x) l2 (snd x) = Inr (BothDict a b)"
        | (lists) a b where "dispatch l1 (fst x) l2 (snd x) = Inr (BothList a b)"
        unfolding dispatch_same_shape by blast
      then show ?thesis
      proof cases
        case dicts
        have "snd (dict_diff a b) = []"
          by (rule "1.IH"(1) [OF Inr p [symmetric] x dicts refl])
        then show ?thesis by (simp add: recurse_on_def dicts snd_then_do)
      next
        case lists
        have "snd (list_diff a b) = []"
          by (rule "1.IH"(2) [OF Inr p [symmetric] x lists refl])
        then show ?thesis by (simp add: recurse_on_def lists snd_then_do)
      qed
    qed
    then have "snd (run_recursions l1 l2 q (map (\<lambda>elem. [elem]) ms)) = []"
      unfolding run_recursions_def by (rule snd_for_loop)
    then show ?thesis by (simp add: list_diff_unfold Inr p)
  qed
next
  case (2 d1 d2)
  obtain dks lks rv where c: "fold (classify d1 d2) (dict_keys d1 d2) ([], [], []) = (dks, lks, rv)"
    by (cases "fold (classify d1 d2) (dict_keys d1 d2) ([], [], [])") auto
  have d: "snd (dict_diff a b) = []"
    if "k \<in> set dks" "dict_items d1 k = Inr a" "dict_items d2 k = Inr b" for k a b
    by (rule "2.IH"(1) [OF c [symmetric] refl that])
  let ?dict_loop = "for_loop dks rv
            (\<lambda>k return_values.
                case dict_items d1 k of Inl e \<Rightarrow> (Inl e, [])
                | Inr a \<Rightarrow>
                    case dict_items d2 k of Inl e \<Rightarrow> (Inl e, [])
                    | Inr b \<Rightarrow>
                        then_do (dict_diff a b)
                         (\<lambda>tmp_non_match_list.
                             (Inr (return_values @
                                   map (\<lambda>retvals. Key k # retvals) tmp_non_match_list),
                              [])))"
  have l: "snd (list_diff a b) = []"
    if "?dict_loop = (Inr rv', out)"
      "k \<in> set lks" "list_items d1 k = Inr a" "list_items d2 k = Inr b" for k a b rv' out
    by (rule "2.IH"(2) [OF c [symmetric] refl that])
  have first: "snd ?dict_loop = []"
    by (rule snd_for_loop) (auto split: sum.splits intro!: snd_then_do d)
  have second: "snd (for_loop lks rv'
                 (\<lambda>k return_values.
                    case list_items d1 k of
                      Inl e \<Rightarrow> (Inl e, [])
                    | Inr a \<Rightarrow>
                        (case list_items d2 k of
                           Inl e \<Rightarrow> (Inl e, [])
                         | Inr b \<Rightarrow>
                             then_do (list_diff a b)
                               (\<lambda>tmp_non_match_list.
                                  (Inr (return_values @ map (\<lambda>retvals. Key k # retvals)
                                          tmp_non_match_list), []))))) = []"
    if "?dict_loop = (Inr rv', out)" for rv' out
    by (rule snd_for_loop) (auto split: sum.splits intro!: snd_then_do l [OF that])
  show ?case
    unfolding dict_diff.simps [of d1 d2] c prod.case
    by (rule snd_then_do [OF first second])
qed

text \<open>
  C10. Every pair that a step of the labelling loop appends to \<^verbatim>\<open>to_recurse\<close> has two
  dicts or two lists at its indices, and so has every pair of the queue that steps 1 to 4
  hand to the recursion loop. The fallback branch on line 213 is the only place that prints,
  and neither differ ever prints, whatever the inputs and whether the call returns or
  raises: the branch is never run.
\<close>

theorem queued_pairs_same_shape:
  "(label_step l1 l2 e st = Inr st' \<longrightarrow>
      (\<forall>elem \<in> set (to_recurse st') - set (to_recurse st). same_shape_pair l1 l2 elem))
   \<and> (label_matches l1 l2 = Inr (ms, q) \<longrightarrow> (\<forall>elem \<in> set q. same_shape_pair l1 l2 elem))
   \<and> snd (list_diff l1 l2) = []
   \<and> snd (dict_diff d1 d2) = []"
proof -
  have step: "\<forall>elem \<in> set (to_recurse st') - set (to_recurse st). same_shape_pair l1 l2 elem"
    if "label_step l1 l2 e st = Inr st'"
  proof -
    obtain score r c where e: "e = (score, r, c)" by (cases e)
    show ?thesis
      using that unfolding e label_step_def
      by (auto simp: Let_def dispatch_same_shape split: if_splits sum.splits shape_pair.splits)
  qed
  have queue: "\<forall>elem \<in> set q. same_shape_pair l1 l2 elem"
    if "label_matches l1 l2 = Inr (ms, q)"
    using that by (rule label_matches_queue)
  have "snd (list_diff l1 l2) = []" and "snd (dict_diff d1 d2) = []"
    by (rule list_diff_prints_nothing, rule dict_diff_prints_nothing)
  with step queue show ?thesis by blast
qed

theorem queued_pairs_same_shape_witness:
  "label_step [Mapping [(SStr ''a'', Scalar (SInt 1))]] [Mapping [(SStr ''a'', Scalar (SInt 1))]]
     (1, 0, 0) empty_labels
     = Inr (empty_labels\<lparr>seen_l1_indices := {0}, seen_l2_indices := {0}, to_recurse := [(0, 0)]\<rparr>)
   \<and> label_matches [Mapping [(SStr ''a'', Scalar (SInt 1))]] [Mapping [(SStr ''a'', Scalar (SInt 1))]]
     = Inr ([], [(0, 0)])
   \<and> same_shape_pair [Mapping [(SStr ''a'', Scalar (SInt 1))]]
        [Mapping [(SStr ''a'', Scalar (SInt 1))]] (0, 0)
   \<and> snd (list_diff [Mapping [(SStr ''a'', Scalar (SInt 1))]]
        [Mapping [(SStr ''a'', Scalar (SInt 1))]]) = []"
proof -
  let ?L = "[Mapping [(SStr ''a'', Scalar (SInt 1))]]"
  let ?st = "empty_labels\<lparr>seen_l1_indices := {0}, seen_l2_indices := {0}, to_recurse := [(0, 0)]\<rparr>"
  have step: "label_step ?L ?L (1, 0, 0) empty_labels = Inr ?st"
    by (simp add: label_step_def empty_labels_def dispatch_def)
  have all: "label_matches ?L ?L = Inr ([], [(0, 0)])"
    by code_simp
  show ?thesis
    using queued_pairs_same_shape [of ?L ?L "(1, 0, 0)" empty_labels ?st "[]" "[(0, 0)]"] step all
    by (simp add: empty_labels_def)
qed

section \<open>The order of the ranking\<close>

lemma merged_Nil2 [simp]: "merged h1 [] = h1"
  by (cases h1) simp_all

lemma merge_loop_merged: "merge_loop h1 h2 acc = acc @ merged h1 h2"
  by (induction h1 h2 acc rule: merge_loop.induct) simp_all

lemma mset_merged: "mset (merged h1 h2) = mset h1 + mset h2"
  by (induction h1 h2 rule: merged.induct) simp_all

lemma set_merged: "set (merged h1 h2) = set h1 \<union> set h2"
  by (induction h1 h2 rule: merged.induct) auto

lemma descending_merged:
  "descending h1 \<Longrightarrow> descending h2 \<Longrightarrow> descending (merged h1 h2)"
  by (induction h1 h2 rule: merged.induct) (auto simp: set_merged)

lemma filter_merged:
  "descending h2 \<Longrightarrow>
   filter (\<lambda>e. fst e = k) (merged h1 h2) = filter (\<lambda>e. fst e = k) h2 @ filter (\<lambda>e. fst e = k) h1"
proof (induction h1 h2 rule: merged.induct)
  case (1 h2)
  show ?case by simp
next
  case (2 a h1)
  show ?case by simp
next
  case (3 a h1 b h2)
  show ?case
  proof (cases "fst a > fst b")
    case True
    have "\<forall>x \<in> set (b # h2). fst x < fst a" using True "3.prems" by auto
    then have none: "fst a = k \<Longrightarrow> filter (\<lambda>e. fst e = k) (b # h2) = []"
      by (auto simp: filter_empty_conv)
    show ?thesis
    proof (cases "fst a = k")
      case k: True
      show ?thesis using True k none "3.IH"(1) "3.prems" by simp
    next
      case False
      then show ?thesis using True "3.IH"(1) "3.prems" by simp
    qed
  next
    case False
    then show ?thesis using "3.IH"(2) "3.prems" by simp
  qed
qed

lemma sort_similarity_list_short: "length sl \<le> 1 \<Longrightarrow> sort_similarity_list sl = sl"
  by (simp add: sort_similarity_list.simps)

lemma sort_similarity_list_split:
  "\<not> length sl \<le> 1 \<Longrightarrow>
   sort_similarity_list sl =
     merged (sort_similarity_list (take (length sl div 2) sl))
            (sort_similarity_list (drop (length sl div 2) sl))"
  by (subst sort_similarity_list.simps) (simp add: Let_def merge_loop_merged)

lemma mset_sort_similarity_list: "mset (sort_similarity_list sl) = mset sl"
proof (induction sl rule: sort_similarity_list.induct)
  case (1 sl)
  show ?case
  proof (cases "length sl \<le> 1")
    case True
    then show ?thesis by (simp add: sort_similarity_list_short)
  next
    case False
    have "mset (take (length sl div 2) sl) + mset (drop (length sl div 2) sl) = mset sl"
      by (metis append_take_drop_id mset_append)
    then show ?thesis
      using False "1.IH" by (simp add: sort_similarity_list_split mset_merged)
  qed
qed

lemma descending_sort_similarity_list: "descending (sort_similarity_list sl)"
proof (induction sl rule: sort_similarity_list.induct)
  case (1 sl)
  show ?case
  proof (cases "length sl \<le> 1")
    case True
    then show ?thesis
      by (cases sl) (simp_all add: sort_similarity_list_short)
  next
    case False
    then show ?thesis
      using "1.IH" by (simp add: sort_similarity_list_split descending_merged)
  qed
qed

lemma filter_sort_similarity_list:
  "filter (\<lambda>e. fst e = k) (sort_similarity_list sl) = rev (filter (\<lambda>e. fst e = k) sl)"
proof (induction sl rule: sort_similarity_list.induct)
  case (1 sl)
  show ?case
  proof (cases "length sl \<le> 1")
    case True
    then show ?thesis
      by (cases sl) (simp_all add: sort_similarity_list_short)
  next
    case False
    let ?n = "length sl div 2"
    have "rev (filter (\<lambda>e. fst e = k) sl)
          = rev (filter (\<lambda>e. fst e = k) (take ?n sl @ drop ?n sl))" by simp
    also have "\<dots> = rev (filter (\<lambda>e. fst e = k) (drop ?n sl)) @ rev (filter (\<lambda>e. fst e = k) (take ?n sl))"
      by (simp only: filter_append rev_append)
    finally show ?thesis
      using False "1.IH" by (simp add: sort_similarity_list_split filter_merged descending_sort_similarity_list)
  qed
qed

text \<open>
  C3, as stated: the ranking is sorted by score descending and stable, so that entries of
  equal score keep their row-major order. On the matrix \<^verbatim>\<open>[[0, 0]]\<close> the two entries
  have the same score and come out swapped: the joining loop takes the head of \<^verbatim>\<open>h1\<close>
  only when its score is strictly greater, so on a tie the entry of the later half goes first.
\<close>

theorem ranking_not_stable:
  "sort_similarity_matrix [[0, 0]] = [(0, 0, 1), (0, 0, 0)]
   \<and> stable_ranking [[0, 0]] = [(0, 0, 0), (0, 0, 1)]"
  by code_simp

text \<open>
  C3, amended: the ranking returns all the entries of the matrix (the same multiset as
  the row-major enumeration), sorted by score descending, and for every score the entries
  with that score appear in the reverse of their row-major order.
\<close>

theorem ranking_descending_ties_reversed:
  "mset (sort_similarity_matrix sm) = mset (sim_list sm)
   \<and> descending (sort_similarity_matrix sm)
   \<and> (\<forall>k. filter (\<lambda>e. fst e = k) (sort_similarity_matrix sm)
            = rev (filter (\<lambda>e. fst e = k) (sim_list sm)))"
  by (simp add: sort_similarity_matrix_def mset_sort_similarity_list
      descending_sort_similarity_list filter_sort_similarity_list)

section \<open>The key loop of the dict differ\<close>

lemma null_or_absent_get: "null_or_absent d k \<longleftrightarrow> dict_get d k = Scalar SNone"
  by (auto simp: null_or_absent_def dict_get_def split: option.splits)

lemma classify_cong:
  "dict_get d1 k = dict_get e1 k \<Longrightarrow> dict_get d2 k = dict_get e2 k \<Longrightarrow>
   classify d1 d2 k acc = classify e1 e2 k acc"
  by (cases acc) (simp add: classify_def)

lemma dict_diff_unfold:
  "dict_diff d1 d2 =
     (case fold (classify d1 d2) (dict_keys d1 d2) ([], [], []) of
        (dict_keys_to_recurse, list_keys_to_recurse, return_values) \<Rightarrow>
          then_do (for_loop dict_keys_to_recurse return_values (recurse_on_dict_key d1 d2))
            (\<lambda>return_values.
               for_loop list_keys_to_recurse return_values (recurse_on_list_key d1 d2)))"
  unfolding recurse_on_dict_key_def recurse_on_list_key_def dict_diff.simps [of d1 d2] ..

lemma for_loop_invariant:
  assumes "for_loop xs s body = (Inr s', out)" and "I s"
    and "\<And>x t t' out'. x \<in> set xs \<Longrightarrow> I t \<Longrightarrow> body x t = (Inr t', out') \<Longrightarrow> I t'"
  shows "I s'"
  using assms
proof (induction xs arbitrary: s out)
  case Nil
  then show ?case by simp
next
  case (Cons x xs)
  obtain r o1 where b: "body x s = (r, o1)" by (cases "body x s")
  show ?case
  proof (cases r)
    case (Inl e)
    then show ?thesis using Cons.prems(1) b by simp
  next
    case (Inr t)
    obtain o2 where rest: "for_loop xs t body = (Inr s', o2)"
      using Cons.prems(1) b Inr by (cases "for_loop xs t body") auto
    have "I t" using Cons.prems(2,3) b Inr by auto
    then show ?thesis using Cons.IH [OF rest] Cons.prems(3) by auto
  qed
qed

lemma then_do_Inr_iff:
  "then_do m f = (Inr y, out) \<longleftrightarrow>
     (\<exists>x o1 o2. m = (Inr x, o1) \<and> f x = (Inr y, o2) \<and> out = o1 @ o2)"
proof (cases m)
  case (Pair r o1)
  show ?thesis
  proof (cases r)
    case (Inl e)
    then show ?thesis using Pair by auto
  next
    case (Inr x)
    then show ?thesis using Pair by (cases "f x") auto
  qed
qed

lemma classify_skips_null:
  assumes "dict_get d1 k = Scalar SNone" and "dict_get d2 k = Scalar SNone"
    and "k \<notin> set dks \<and> k \<notin> set lks \<and> no_path_for k rv"
    and "classify d1 d2 k' (dks, lks, rv) = (dks', lks', rv')"
  shows "k \<notin> set dks' \<and> k \<notin> set lks' \<and> no_path_for k rv'"
  using assms
  by (cases "k' = k") (auto simp: classify_def py_ne_def no_path_for_def split: if_splits)

lemma fold_classify_skips_null:
  assumes "dict_get d1 k = Scalar SNone" and "dict_get d2 k = Scalar SNone"
    and "k \<notin> set dks \<and> k \<notin> set lks \<and> no_path_for k rv"
    and "fold (classify d1 d2) ks (dks, lks, rv) = (dks', lks', rv')"
  shows "k \<notin> set dks' \<and> k \<notin> set lks' \<and> no_path_for k rv'"
  using assms(3,4)
proof (induction ks arbitrary: dks lks rv)
  case Nil
  then show ?case by simp
next
  case (Cons k' ks)
  obtain a b c where step: "classify d1 d2 k' (dks, lks, rv) = (a, b, c)"
    by (cases "classify d1 d2 k' (dks, lks, rv)") auto
  have "k \<notin> set a \<and> k \<notin> set b \<and> no_path_for k c"
    by (rule classify_skips_null [OF assms(1,2) Cons.prems(1) step])
  then show ?case using Cons.IH [of a b c] Cons.prems(2) step by simp
qed

lemma dict_diff_no_path_for_null:
  assumes "dict_get d1 k = Scalar SNone" and "dict_get d2 k = Scalar SNone"
    and "dict_diff d1 d2 = (Inr ps, out)"
  shows "no_path_for k ps"
proof -
  obtain dks lks rv where c: "fold (classify d1 d2) (dict_keys d1 d2) ([], [], []) = (dks, lks, rv)"
    by (cases "fold (classify d1 d2) (dict_keys d1 d2) ([], [], [])") auto
  have start: "k \<notin> set dks \<and> k \<notin> set lks \<and> no_path_for k rv"
    by (rule fold_classify_skips_null [OF assms(1,2) _ c]) (simp add: no_path_for_def)
  from assms(3) obtain rv1 o1 o2 where
    first: "for_loop dks rv (recurse_on_dict_key d1 d2) = (Inr rv1, o1)"
    and second: "for_loop lks rv1 (recurse_on_list_key d1 d2) = (Inr ps, o2)"
    unfolding dict_diff_unfold [of d1 d2] c prod.case then_do_Inr_iff by blast
  have "no_path_for k rv1"
    by (rule for_loop_invariant [OF first, where I = "no_path_for k"])
       (use start in \<open>auto simp: recurse_on_dict_key_def no_path_for_def then_do_Inr_iff
          split: sum.splits\<close>)
  then show "no_path_for k ps"
    by (rule for_loop_invariant [OF second, where I = "no_path_for k"])
       (use start in \<open>auto simp: recurse_on_list_key_def no_path_for_def then_do_Inr_iff
          split: sum.splits\<close>)
qed

lemma dict_diff_empty_null: "dict_diff [] [(k, Scalar SNone)] = (Inr [], [])"
  by (simp add: dict_diff.simps dict_keys_def classify_def py_ne_def dict_get_def)

lemma dict_diff_null_empty: "dict_diff [(k, Scalar SNone)] [] = (Inr [], [])"
  by (simp add: dict_diff.simps dict_keys_def classify_def py_ne_def dict_get_def)

section \<open>What the similarity matrix holds\<close>

subsection \<open>Increments\<close>

lemma dims_length: "map length M' = map length M \<Longrightarrow> length M' = length M"
  by (metis length_map)

lemma dims_row: "map length M' = map length M \<Longrightarrow> r < length M \<Longrightarrow> length (M' ! r) = length (M ! r)"
  by (metis length_map nth_map)

lemma incr_Inr_iff:
  "incr M i j = Inr M' \<longleftrightarrow>
     i < length M \<and> j < length (M ! i) \<and> M' = M[i := (M ! i)[j := M ! i ! j + 1]]"
  by (auto simp: incr_def)

lemma incr_dims: "incr M i j = Inr M' \<Longrightarrow> map length M' = map length M"
  by (auto simp: incr_Inr_iff map_update list_update_same_conv)

lemma incr_entry:
  assumes "incr M i j = Inr M'" and "r < length M" and "c < length (M ! r)"
  shows "M' ! r ! c = M ! r ! c + (if r = i \<and> c = j then 1 else 0)"
  using assms by (auto simp: incr_Inr_iff nth_list_update)

lemma incr_all_Cons:
  "incr_all i (j # js) M = (case incr M i j of Inl e \<Rightarrow> Inl e | Inr M' \<Rightarrow> incr_all i js M')"
  by (simp add: incr_all_def split: sum.splits)

lemma incr_all_dims: "incr_all i js M = Inr M' \<Longrightarrow> map length M' = map length M"
proof (induction js arbitrary: M)
  case Nil
  then show ?case by (simp add: incr_all_nil)
next
  case (Cons j js)
  then obtain M1 where 1: "incr M i j = Inr M1" and 2: "incr_all i js M1 = Inr M'"
    by (auto simp: incr_all_Cons split: sum.splits)
  show ?case using Cons.IH [OF 2] incr_dims [OF 1] by simp
qed

lemma incr_all_entry:
  assumes "incr_all i js M = Inr M'" and "r < length M" and "c < length (M ! r)"
  shows "M' ! r ! c = M ! r ! c + (if r = i then int (count_list js c) else 0)"
  using assms
proof (induction js arbitrary: M)
  case Nil
  then show ?case by (simp add: incr_all_nil)
next
  case (Cons j js)
  then obtain M1 where 1: "incr M i j = Inr M1" and 2: "incr_all i js M1 = Inr M'"
    by (auto simp: incr_all_Cons split: sum.splits)
  have d: "map length M1 = map length M" by (rule incr_dims [OF 1])
  have r: "r < length M1" using dims_length [OF d] Cons.prems(2) by simp
  have c: "c < length (M1 ! r)" using dims_row [OF d Cons.prems(2)] Cons.prems(3) by simp
  have "M' ! r ! c = M1 ! r ! c + (if r = i then int (count_list js c) else 0)"
    by (rule Cons.IH [OF 2 r c])
  also have "M1 ! r ! c = M ! r ! c + (if r = i \<and> c = j then 1 else 0)"
    by (rule incr_entry [OF 1 Cons.prems(2,3)])
  finally show ?case by auto
qed

lemma incr_all_succeeds:
  assumes "i < length M" and "\<forall>j \<in> set js. j < length (M ! i)"
  shows "\<exists>M'. incr_all i js M = Inr M'"
  using assms
proof (induction js arbitrary: M)
  case Nil
  show ?case by (simp add: incr_all_nil)
next
  case (Cons j js)
  obtain M1 where 1: "incr M i j = Inr M1"
    using Cons.prems by (auto simp: incr_Inr_iff)
  have d: "map length M1 = map length M" by (rule incr_dims [OF 1])
  have "i < length M1" using dims_length [OF d] Cons.prems(1) by simp
  moreover have "\<forall>j \<in> set js. j < length (M1 ! i)"
    using dims_row [OF d Cons.prems(1)] Cons.prems(2) by simp
  ultimately show ?case using Cons.IH [of M1] 1 by (simp add: incr_all_Cons)
qed

subsection \<open>Rows\<close>

lemma adds_trans:
  assumes "adds M M1 g" and "adds M1 M2 h"
  shows "adds M M2 (\<lambda>r c. g r c + h r c)"
proof -
  have d1: "map length M1 = map length M" and d2: "map length M2 = map length M1"
    using assms by (simp_all add: adds_def)
  have "M2 ! r ! c = M ! r ! c + (g r c + h r c)" if r: "r < length M" and c: "c < length (M ! r)" for r c
  proof -
    have r1: "r < length M1" using dims_length [OF d1] r by simp
    have c1: "c < length (M1 ! r)" using dims_row [OF d1 r] c by simp
    have "M2 ! r ! c = M1 ! r ! c + h r c" using assms(2) r1 c1 by (simp add: adds_def)
    also have "M1 ! r ! c = M ! r ! c + g r c" using assms(1) r c by (simp add: adds_def)
    finally show ?thesis by simp
  qed
  then show ?thesis using d1 d2 by (simp add: adds_def)
qed

lemma adds_refl: "adds M M (\<lambda>r c. 0)"
  by (simp add: adds_def)

lemma fold_err_adds:
  assumes "\<And>x N N'. x \<in> set xs \<Longrightarrow> f x N = Inr N' \<Longrightarrow> adds N N' (g x)"
    and "fold_err f xs M = Inr M'"
  shows "adds M M' (\<lambda>r c. \<Sum>x\<leftarrow>xs. g x r c)"
  using assms
proof (induction xs arbitrary: M)
  case Nil
  then show ?case by (simp add: adds_refl)
next
  case (Cons x xs)
  then obtain M1 where 1: "f x M = Inr M1" and 2: "fold_err f xs M1 = Inr M'"
    by (auto split: sum.splits)
  have a: "adds M M1 (g x)" using Cons.prems(1) 1 by simp
  have b: "adds M1 M' (\<lambda>r c. \<Sum>x\<leftarrow>xs. g x r c)"
    using Cons.IH [OF _ 2] Cons.prems(1) by simp
  show ?case using adds_trans [OF a b] by simp
qed

lemma incr_all_adds:
  "incr_all i js M = Inr M' \<Longrightarrow> adds M M' (\<lambda>r c. if r = i then int (count_list js c) else 0)"
  using incr_all_dims [of i js M M'] incr_all_entry [of i js M M'] by (simp add: adds_def)

lemma score_item_adds:
  "score_item b i kv M = Inr M' \<Longrightarrow>
   adds M M' (\<lambda>r c. if r = i then int (count_list (item_bucket b kv) c) else 0)"
  by (cases "(b, i, kv, M)" rule: score_item.cases) (auto dest: incr_all_adds cong: if_cong)

lemma sum_list_if_row:
  "(\<Sum>x\<leftarrow>xs. if r = i then g x else (0::int)) = (if r = i then (\<Sum>x\<leftarrow>xs. g x) else 0)"
  by (induction xs) simp_all

lemma score_elem_adds:
  assumes "score_elem b i x M = Inr M'"
  shows "adds M M' (\<lambda>r c. if r = i then hits b x c else 0)"
proof (cases x)
  case (Scalar s)
  then show ?thesis
    using assms incr_all_adds [of i "get_list (simple_values b) s" M M'] by (simp cong: if_cong)
next
  case (Sequence l)
  then show ?thesis
    using assms incr_all_adds [of i "get_list (list_lengths b) (length l)" M M'] by (simp cong: if_cong)
next
  case (Mapping d)
  have "adds M M' (\<lambda>r c. \<Sum>kv\<leftarrow>d. if r = i then int (count_list (item_bucket b kv) c) else 0)"
    by (rule fold_err_adds [where f = "score_item b i"])
       (use assms Mapping in \<open>simp_all add: score_item_adds\<close>)
  then show ?thesis using Mapping by (simp add: sum_list_if_row cong: if_cong)
qed

lemma sum_list_upt_single:
  "(\<Sum>i\<leftarrow>[0..<n]. if r = i then g i else (0::int)) = (if r < n then g r else 0)"
  by (induction n) auto

lemma create_similarity_matrix_adds:
  assumes "create_similarity_matrix l1 l2 = Inr M"
  shows "adds (replicate (length l2) (replicate (length l1) 0)) M
           (\<lambda>r c. if r < length l1 then hits (parse_l2 l2) (l1 ! r) c else 0)"
proof -
  have "adds (replicate (length l2) (replicate (length l1) 0)) M
          (\<lambda>r c. \<Sum>i\<leftarrow>[0..<length l1]. if r = i then hits (parse_l2 l2) (l1 ! i) c else 0)"
    by (rule fold_err_adds [where f = "\<lambda>i. score_elem (parse_l2 l2) i (l1 ! i)"])
       (use assms in \<open>simp_all add: create_similarity_matrix_def score_elem_adds\<close>)
  then show ?thesis by (simp add: sum_list_upt_single)
qed

subsection \<open>The lookup tables\<close>

lemma count_bucket_add:
  "count_list (get_list (bucket_add m k i) k') c
     = count_list (get_list m k') c + (if k' = k \<and> c = i then 1 else 0)"
  by (simp add: bucket_add_def get_list_def)

lemma parse_item_other [simp]:
  "simple_values (parse_item i kv b) = simple_values b"
  "list_lengths (parse_item i kv b) = list_lengths b"
  by (cases "(i, kv, b)" rule: parse_item.cases; simp)+

lemma fold_parse_item_other [simp]:
  "simple_values (fold (parse_item i) d b) = simple_values b"
  "list_lengths (fold (parse_item i) d b) = list_lengths b"
  by (induction d arbitrary: b; simp)+

lemma item_bucket_parse_item:
  "int (count_list (item_bucket (parse_item i kv' b) kv) c)
     = int (count_list (item_bucket b kv) c) + (if c = i \<and> item_matches kv kv' then 1 else 0)"
  by (cases "(kv, kv')" rule: item_matches.cases) (auto simp: count_bucket_add)

lemma item_bucket_fold_parse_item:
  "int (count_list (item_bucket (fold (parse_item i) d' b) kv) c)
     = int (count_list (item_bucket b kv) c)
       + (if c = i then int (length (filter (item_matches kv) d')) else 0)"
  by (induction d' arbitrary: b) (auto simp: item_bucket_parse_item)

lemma sum_list_add_if:
  "(\<Sum>x\<leftarrow>xs. f x + (if P then g x else (0::int))) = (\<Sum>x\<leftarrow>xs. f x) + (if P then (\<Sum>x\<leftarrow>xs. g x) else 0)"
  by (induction xs) auto

lemma item_bucket_simple [simp]:
  "item_bucket (b\<lparr>simple_values := m\<rparr>) kv = item_bucket b kv"
  "item_bucket (b\<lparr>list_lengths := m'\<rparr>) kv = item_bucket b kv"
  by (cases "(b, kv)" rule: item_bucket.cases; simp)+

lemma hits_parse_elem:
  "hits (parse_elem i y b) x c = hits b x c + (if c = i then pair_score x y else 0)"
proof (cases y)
  case (Scalar s')
  then show ?thesis by (cases x) (auto simp: count_bucket_add)
next
  case (Sequence l')
  then show ?thesis by (cases x) (auto simp: count_bucket_add)
next
  case (Mapping d')
  then show ?thesis
    by (cases x) (auto simp: item_bucket_fold_parse_item sum_list_add_if)
qed

lemma hits_empty: "hits empty_buckets x c = 0"
proof (cases x)
  case (Mapping d)
  have "item_bucket empty_buckets kv = []" for kv
    by (cases "(empty_buckets, kv)" rule: item_bucket.cases)
       (simp_all add: empty_buckets_def get_list_def)
  then show ?thesis using Mapping by simp
qed (simp_all add: empty_buckets_def get_list_def)

lemma hits_parse_prefix:
  "n \<le> length l2 \<Longrightarrow>
   hits (fold (\<lambda>i. parse_elem i (l2 ! i)) [0..<n] empty_buckets) x c
     = (if c < n then pair_score x (l2 ! c) else 0)"
  by (induction n) (auto simp: hits_empty hits_parse_elem)

lemma hits_parse_l2:
  "hits (parse_l2 l2) x c = (if c < length l2 then pair_score x (l2 ! c) else 0)"
  by (simp add: parse_l2_def hits_parse_prefix)

subsection \<open>The entries\<close>

lemma bucket_add_below: "below m n \<Longrightarrow> i < n \<Longrightarrow> below (bucket_add m k i) n"
  by (auto simp: below_def bucket_add_def get_list_def)

lemma parse_item_below:
  "buckets_below b n \<Longrightarrow> i < n \<Longrightarrow> buckets_below (parse_item i kv b) n"
  by (cases "(i, kv, b)" rule: parse_item.cases) (simp_all add: buckets_below_def bucket_add_below)

lemma fold_parse_item_below:
  "buckets_below b n \<Longrightarrow> i < n \<Longrightarrow> buckets_below (fold (parse_item i) d b) n"
  by (induction d arbitrary: b) (simp_all add: parse_item_below)

lemma parse_elem_below:
  "buckets_below b n \<Longrightarrow> i < n \<Longrightarrow> buckets_below (parse_elem i y b) n"
  by (cases y)
     (simp_all add: fold_parse_item_below, simp_all add: buckets_below_def bucket_add_below)

lemma parse_l2_below: "buckets_below (parse_l2 l2) (length l2)"
  unfolding parse_l2_def
  by (rule fold_invariant [where Q = "\<lambda>i. i < length l2"])
     (simp_all add: parse_elem_below,
      simp add: buckets_below_def below_def empty_buckets_def get_list_def)

lemma fold_err_succeeds:
  assumes "I s" and "\<And>x t. x \<in> set xs \<Longrightarrow> I t \<Longrightarrow> \<exists>t'. f x t = Inr t' \<and> I t'"
  shows "\<exists>s'. fold_err f xs s = Inr s' \<and> I s'"
  using assms
proof (induction xs arbitrary: s)
  case Nil
  then show ?case by simp
next
  case (Cons x xs)
  obtain t where t: "f x s = Inr t" "I t" using Cons.prems by force
  show ?case using Cons.IH [OF t(2)] Cons.prems(2) t(1) by simp
qed

lemma incr_all_succeeds_dims:
  assumes "map length N = map length M" and "i < length M"
    and "\<forall>j \<in> set js. j < length (M ! i)"
  shows "\<exists>N'. incr_all i js N = Inr N' \<and> map length N' = map length M"
proof -
  have "i < length N" using dims_length [OF assms(1)] assms(2) by simp
  moreover have "\<forall>j \<in> set js. j < length (N ! i)"
    using dims_row [OF assms(1,2)] assms(3) by simp
  ultimately obtain N' where "incr_all i js N = Inr N'"
    using incr_all_succeeds by blast
  then show ?thesis using incr_all_dims [of i js N N'] assms(1) by simp
qed

lemma item_bucket_below:
  "buckets_below b n \<Longrightarrow> \<forall>j \<in> set (item_bucket b kv). j < n"
  by (cases "(b, kv)" rule: item_bucket.cases) (simp_all add: buckets_below_def below_def)

lemma score_item_bucket: "score_item b i kv M = incr_all i (item_bucket b kv) M"
  by (cases "(b, i, kv, M)" rule: score_item.cases) simp_all

lemma score_elem_succeeds:
  assumes "buckets_below b n" and "map length N = map length M" and "i < length M"
    and "n \<le> length (M ! i)"
  shows "\<exists>N'. score_elem b i x N = Inr N' \<and> map length N' = map length M"
proof (cases x)
  case (Scalar s)
  have "\<forall>j \<in> set (get_list (simple_values b) s). j < length (M ! i)"
    using assms(1,4) by (fastforce simp: buckets_below_def below_def)
  then show ?thesis using Scalar incr_all_succeeds_dims [OF assms(2,3)] by simp
next
  case (Sequence l)
  have "\<forall>j \<in> set (get_list (list_lengths b) (length l)). j < length (M ! i)"
    using assms(1,4) by (fastforce simp: buckets_below_def below_def)
  then show ?thesis using Sequence incr_all_succeeds_dims [OF assms(2,3)] by simp
next
  case (Mapping d)
  have "\<exists>t'. score_item b i kv t = Inr t' \<and> map length t' = map length M"
    if "map length t = map length M" for kv t
  proof -
    have "\<forall>j \<in> set (item_bucket b kv). j < length (M ! i)"
      using item_bucket_below [OF assms(1), of kv] assms(4) by auto
    then show ?thesis
      using incr_all_succeeds_dims [OF that assms(3)] by (simp add: score_item_bucket)
  qed
  then have "\<exists>N'. fold_err (score_item b i) d N = Inr N' \<and> map length N' = map length M"
    by (intro fold_err_succeeds [where I = "\<lambda>t. map length t = map length M"] assms(2)) blast
  then show ?thesis using Mapping by simp
qed

lemma create_similarity_matrix_square:
  assumes "length l1 = length l2"
  shows "\<exists>M. create_similarity_matrix l1 l2 = Inr M"
proof -
  let ?M0 = "replicate (length l2) (replicate (length l1) (0::int))"
  have "\<exists>t'. score_elem (parse_l2 l2) i (l1 ! i) t = Inr t' \<and> map length t' = map length ?M0"
    if "i \<in> set [0..<length l1]" "map length t = map length ?M0" for i t
    by (rule score_elem_succeeds [OF parse_l2_below that(2)]) (use that(1) assms in simp_all)
  then have "\<exists>M. fold_err (\<lambda>i. score_elem (parse_l2 l2) i (l1 ! i)) [0..<length l1] ?M0 = Inr M
               \<and> map length M = map length ?M0"
    by (intro fold_err_succeeds [where I = "\<lambda>t. map length t = map length ?M0"]) auto
  then show ?thesis by (auto simp: create_similarity_matrix_def)
qed

lemma create_similarity_matrix_dims:
  assumes "create_similarity_matrix l1 l2 = Inr M"
  shows "length M = length l2" and "r < length l2 \<Longrightarrow> length (M ! r) = length l1"
proof -
  let ?M0 = "replicate (length l2) (replicate (length l1) (0::int))"
  have d: "map length M = map length ?M0"
    using create_similarity_matrix_adds [OF assms] by (simp add: adds_def)
  show "length M = length l2" using dims_length [OF d] by simp
  show "length (M ! r) = length l1" if "r < length l2"
    using dims_row [OF d, of r] that by simp
qed

lemma create_similarity_matrix_entry:
  assumes "create_similarity_matrix l1 l2 = Inr M" and "r < length l2" and "c < length l1"
  shows "M ! r ! c = (if r < length l1 \<and> c < length l2 then pair_score (l1 ! r) (l2 ! c) else 0)"
  using create_similarity_matrix_adds [OF assms(1)] assms(2,3)
  by (simp add: adds_def hits_parse_l2)

lemma pair_score_shapes: "shape_of x \<noteq> shape_of y \<Longrightarrow> pair_score x y = 0"
  by (cases x; cases y) simp_all

lemma incr_all_in_range:
  assumes "incr_all i js M = Inr M'" and "j \<in> set js"
  shows "i < length M \<and> j < length (M ! i)"
  using assms
proof (induction js arbitrary: M)
  case Nil
  then show ?case by simp
next
  case (Cons j' js)
  then obtain M1 where 1: "incr M i j' = Inr M1" and 2: "incr_all i js M1 = Inr M'"
    by (auto simp: incr_all_Cons split: sum.splits)
  have i: "i < length M" and j': "j' < length (M ! i)" using 1 by (simp_all add: incr_Inr_iff)
  show ?case
  proof (cases "j = j'")
    case True
    then show ?thesis using i j' by simp
  next
    case False
    then have "j \<in> set js" using Cons.prems(2) by simp
    then have "j < length (M1 ! i)" using Cons.IH [OF 2] by simp
    then show ?thesis using i dims_row [OF incr_dims [OF 1] i] by simp
  qed
qed

lemma fold_err_reaches:
  assumes "fold_err f xs s = Inr s'" and "x \<in> set xs" and "I s"
    and "\<And>y t t'. I t \<Longrightarrow> f y t = Inr t' \<Longrightarrow> I t'"
  shows "\<exists>t t'. I t \<and> f x t = Inr t'"
  using assms(1,2,3)
proof (induction xs arbitrary: s)
  case Nil
  then show ?case by simp
next
  case (Cons y xs)
  then obtain t where t: "f y s = Inr t" and r: "fold_err f xs t = Inr s'"
    by (auto split: sum.splits)
  show ?case
  proof (cases "x = y")
    case True
    then show ?thesis using t Cons.prems(3) by blast
  next
    case False
    then have "x \<in> set xs" using Cons.prems(2) by simp
    moreover have "I t" using assms(4) [OF Cons.prems(3) t] .
    ultimately show ?thesis using Cons.IH [OF r] by blast
  qed
qed

lemma sum_list_pos_ex:
  assumes "0 < (\<Sum>x\<leftarrow>xs. int (f x))"
  shows "\<exists>x \<in> set xs. 0 < f x"
proof (rule ccontr)
  assume "\<not> (\<exists>x \<in> set xs. 0 < f x)"
  then have "\<forall>x \<in> set xs. f x = 0" by simp
  then have "(\<Sum>x\<leftarrow>xs. int (f x)) = 0" by (induction xs) simp_all
  then show False using assms by simp
qed

lemma count_list_pos: "0 < count_list xs x \<longleftrightarrow> x \<in> set xs"
  by (metis count_list_0_iff gr0I less_numeral_extra(3))

lemma score_elem_in_range:
  assumes "score_elem b i x M = Inr M'" and "0 < hits b x c"
  shows "i < length M \<and> c < length (M ! i)"
proof (cases x)
  case (Scalar s)
  then show ?thesis
    using assms incr_all_in_range [of i "get_list (simple_values b) s" M M' c]
    by (simp add: count_list_pos)
next
  case (Sequence l)
  then show ?thesis
    using assms incr_all_in_range [of i "get_list (list_lengths b) (length l)" M M' c]
    by (simp add: count_list_pos)
next
  case (Mapping d)
  then obtain kv where kv: "kv \<in> set d" and c: "c \<in> set (item_bucket b kv)"
    using assms(2) sum_list_pos_ex [of "\<lambda>kv. count_list (item_bucket b kv) c" d]
    by (auto simp: count_list_pos)
  have run: "fold_err (score_item b i) d M = Inr M'" using assms(1) Mapping by simp
  have "\<exists>t t'. map length t = map length M \<and> score_item b i kv t = Inr t'"
    by (rule fold_err_reaches [OF run kv, where I = "\<lambda>t. map length t = map length M"])
       (auto simp: score_item_bucket dest: incr_all_dims)
  then obtain t t' where t: "map length t = map length M" and s: "incr_all i (item_bucket b kv) t = Inr t'"
    by (auto simp: score_item_bucket)
  have "i < length t \<and> c < length (t ! i)" by (rule incr_all_in_range [OF s c])
  then show ?thesis using dims_length [OF t] dims_row [OF t, of i] by simp
qed

lemma score_elem_dims: "score_elem b i x M = Inr M' \<Longrightarrow> map length M' = map length M"
  using score_elem_adds [of b i x M M'] by (simp add: adds_def)

lemma create_similarity_matrix_in_range:
  assumes "create_similarity_matrix l1 l2 = Inr M" and "i < length l1" and "j < length l2"
    and "0 < pair_score (l1 ! i) (l2 ! j)"
  shows "i < length l2 \<and> j < length l1"
proof -
  let ?M0 = "replicate (length l2) (replicate (length l1) (0::int))"
  have run: "fold_err (\<lambda>i. score_elem (parse_l2 l2) i (l1 ! i)) [0..<length l1] ?M0 = Inr M"
    using assms(1) by (simp add: create_similarity_matrix_def)
  have "\<exists>t t'. map length t = map length ?M0 \<and> score_elem (parse_l2 l2) i (l1 ! i) t = Inr t'"
    by (rule fold_err_reaches [OF run, where I = "\<lambda>t. map length t = map length ?M0"])
       (use assms(2) in \<open>auto dest: score_elem_dims\<close>)
  then obtain t t' where t: "map length t = map length ?M0"
    and s: "score_elem (parse_l2 l2) i (l1 ! i) t = Inr t'" by blast
  have "0 < hits (parse_l2 l2) (l1 ! i) j" using assms(3,4) by (simp add: hits_parse_l2)
  then have in_t: "i < length t \<and> j < length (t ! i)" by (rule score_elem_in_range [OF s])
  have lt: "length t = length l2" using dims_length [OF t] by simp
  then have "i < length l2" using in_t by simp
  moreover have "length (t ! i) = length l1"
    using dims_row [OF t, of i] \<open>i < length l2\<close> by simp
  ultimately show ?thesis using in_t by simp
qed

text \<open>
  In a matrix that the scorer returns, the entry \<open>M ! i ! j\<close>, where it exists, is the
  score of the pair \<open>(l1 ! i, l2 ! j)\<close>: for two scalars 1 when they are the same key
  (equal scalars, or the same NaN object) and 0 otherwise, and 0 for two elements of
  different shapes. A pair of scalars that are the same key always has its entry in a matrix
  that is returned, and lists of equal length always get a matrix.
\<close>

lemma entries_hold_pair_scores:
  "(length l1 = length l2 \<longrightarrow> (\<exists>M. create_similarity_matrix l1 l2 = Inr M))
   \<and> (create_similarity_matrix l1 l2 = Inr M \<and> i < length l1 \<and> j < length l2
        \<and> l1 ! i = Scalar a \<and> l2 ! j = Scalar a \<longrightarrow>
       i < length M \<and> j < length (M ! i) \<and> M ! i ! j = 1)
   \<and> (create_similarity_matrix l1 l2 = Inr M \<and> i < length l1 \<and> j < length l2
        \<and> i < length M \<and> j < length (M ! i) \<longrightarrow>
       (\<forall>a b. l1 ! i = Scalar a \<and> l2 ! j = Scalar b \<longrightarrow> M ! i ! j = (if a = b then 1 else 0))
       \<and> (shape_of (l1 ! i) \<noteq> shape_of (l2 ! j) \<longrightarrow> M ! i ! j = 0))"
proof (intro conjI impI)
  assume "length l1 = length l2"
  then show "\<exists>M. create_similarity_matrix l1 l2 = Inr M"
    by (rule create_similarity_matrix_square)
next
  assume h: "create_similarity_matrix l1 l2 = Inr M \<and> i < length l1 \<and> j < length l2
        \<and> l1 ! i = Scalar a \<and> l2 ! j = Scalar a"
  then have m: "create_similarity_matrix l1 l2 = Inr M" by simp
  have i: "i < length l1" and j: "j < length l2" using h by simp_all
  have "0 < pair_score (l1 ! i) (l2 ! j)" using h by simp
  then have rc: "i < length l2 \<and> j < length l1"
    by (rule create_similarity_matrix_in_range [OF m i j])
  show "i < length M" using rc create_similarity_matrix_dims(1) [OF m] by simp
  show "j < length (M ! i)" using rc create_similarity_matrix_dims(2) [OF m, of i] by simp
  show "M ! i ! j = 1" using create_similarity_matrix_entry [OF m, of i j] rc h by simp
next
  assume h: "create_similarity_matrix l1 l2 = Inr M \<and> i < length l1 \<and> j < length l2
        \<and> i < length M \<and> j < length (M ! i)"
  then have m: "create_similarity_matrix l1 l2 = Inr M" by simp
  have r: "i < length l2" using h create_similarity_matrix_dims(1) [OF m] by simp
  have c: "j < length l1" using h create_similarity_matrix_dims(2) [OF m r] by simp
  have e: "M ! i ! j = pair_score (l1 ! i) (l2 ! j)"
    using create_similarity_matrix_entry [OF m r c] h by simp
  show "\<forall>a b. l1 ! i = Scalar a \<and> l2 ! j = Scalar b \<longrightarrow> M ! i ! j = (if a = b then 1 else 0)"
    using e by auto
  show "M ! i ! j = 0" if "shape_of (l1 ! i) \<noteq> shape_of (l2 ! j)"
    using e pair_score_shapes [OF that] by simp
qed

text \<open>
  C8. The claim gives every pair of elements a score in the matrix: 1 or 0 for two
  scalars, 0 for two elements of different shapes. The docstring promises the same,
  a matrix \<^verbatim>\<open>matrix[l1_index][l2_index]\<close> with one row per element of \<^verbatim>\<open>l1\<close>. For
  \<^verbatim>\<open>l1 = [1, {}, []]\<close> and \<^verbatim>\<open>l2 = [1]\<close> the scorer returns \<^verbatim>\<open>[[1, 0, 0]]\<close>, one
  row of three columns: line 32 allocates \<^verbatim>\<open>len(l2)\<close> rows of \<^verbatim>\<open>len(l1)\<close> columns.
  The pairs \<^verbatim>\<open>({}, 1)\<close> and \<^verbatim>\<open>([], 1)\<close>, each of two different shapes, belong at
  \<^verbatim>\<open>[1][0]\<close> and \<^verbatim>\<open>[2][0]\<close>; the matrix has no second and no third row, so the two
  pairs have no score at all, and the zeros in the first row belong to no pair.
\<close>

theorem scorer_leaves_pairs_without_score:
  "create_similarity_matrix [Scalar (SInt 1), Mapping [], Sequence []] [Scalar (SInt 1)]
     = Inr [[1, 0, 0]]"
  by code_simp

section \<open>Diffing a value against itself\<close>

subsection \<open>The score of an element with itself\<close>

lemma item_matches_key: "item_matches kv kv' \<Longrightarrow> fst kv = fst kv'"
  by (cases "(kv, kv')" rule: item_matches.cases) simp_all

lemma item_matches_refl: "item_matches kv kv"
  by (cases "(kv, kv)" rule: item_matches.cases) simp_all

lemma filter_key_le1:
  assumes "distinct (map fst d)" and "\<And>kv'. P kv' \<Longrightarrow> fst kv' = k"
  shows "length (filter P d) \<le> 1"
  using assms(1)
proof (induction d)
  case Nil
  show ?case by simp
next
  case (Cons kv' d)
  show ?case
  proof (cases "P kv'")
    case True
    have "fst kv' \<notin> fst ` set d" using Cons.prems by simp
    then have "\<forall>x \<in> set d. \<not> P x"
      using assms(2) [OF True] assms(2) by (metis imageI)
    then have "filter P d = []" by (simp add: filter_empty_conv)
    then show ?thesis using True by simp
  next
    case False
    then show ?thesis using Cons by simp
  qed
qed

lemma sum_list_le_length:
  assumes "\<And>x. x \<in> set xs \<Longrightarrow> f x \<le> (1::nat)"
  shows "(\<Sum>x\<leftarrow>xs. int (f x)) \<le> int (length xs)"
  using assms by (induction xs) (simp_all add: add_mono)

lemma sum_list_all_one:
  assumes "\<And>x. x \<in> set xs \<Longrightarrow> f x = (1::nat)"
  shows "(\<Sum>x\<leftarrow>xs. int (f x)) = int (length xs)"
  using assms by (induction xs) simp_all

lemma matches_swap:
  "(\<Sum>kv\<leftarrow>d1. int (length (filter (item_matches kv) d2)))
     = (\<Sum>kv'\<leftarrow>d2. int (length (filter (\<lambda>kv. item_matches kv kv') d1)))"
proof (induction d1)
  case Nil
  show ?case by simp
next
  case (Cons kv d1)
  have "(\<Sum>kv'\<leftarrow>d2. int (length (filter (\<lambda>x. item_matches x kv') (kv # d1))))
        = (\<Sum>kv'\<leftarrow>d2. (if item_matches kv kv' then 1 else 0)
                        + int (length (filter (\<lambda>x. item_matches x kv') d1)))"
    by (rule arg_cong [where f = sum_list]) simp
  also have "\<dots> = (\<Sum>kv'\<leftarrow>d2. if item_matches kv kv' then 1 else 0)
                   + (\<Sum>kv'\<leftarrow>d2. int (length (filter (\<lambda>x. item_matches x kv') d1)))"
    by (simp add: sum_list_addf)
  also have "(\<Sum>kv'\<leftarrow>d2. if item_matches kv kv' then 1 else (0::int))
             = int (length (filter (item_matches kv) d2))"
    by (induction d2) simp_all
  finally show ?case using Cons.IH by simp
qed

lemma pair_score_nonneg: "0 \<le> pair_score x y"
  by (cases "(x, y)" rule: pair_score.cases) (auto intro!: sum_list_nonneg)

lemma dict_score_le_left:
  assumes "distinct (map fst d2)"
  shows "pair_score (Mapping d1) (Mapping d2) \<le> int (length d1)"
  unfolding pair_score.simps
  by (rule sum_list_le_length) (rule filter_key_le1 [OF assms], erule item_matches_key [symmetric])

lemma dict_score_le_right:
  assumes "distinct (map fst d1)"
  shows "pair_score (Mapping d1) (Mapping d2) \<le> int (length d2)"
proof -
  have "pair_score (Mapping d1) (Mapping d2)
        = (\<Sum>kv'\<leftarrow>d2. int (length (filter (\<lambda>kv. item_matches kv kv') d1)))"
    unfolding pair_score.simps by (rule matches_swap)
  also have "\<dots> \<le> int (length d2)"
    by (rule sum_list_le_length) (rule filter_key_le1 [OF assms], erule item_matches_key)
  finally show ?thesis .
qed

lemma dict_score_self:
  assumes "distinct (map fst d)"
  shows "pair_score (Mapping d) (Mapping d) = int (length d)"
proof -
  have "length (filter (item_matches kv) d) = 1" if "kv \<in> set d" for kv
  proof -
    have "length (filter (item_matches kv) d) \<le> 1"
      by (rule filter_key_le1 [OF assms]) (erule item_matches_key [symmetric])
    moreover have "kv \<in> set (filter (item_matches kv) d)"
      using that by (simp add: item_matches_refl)
    then have "0 < length (filter (item_matches kv) d)" by (rule length_pos_if_in_set)
    ultimately show ?thesis by arith
  qed
  then show ?thesis unfolding pair_score.simps by (rule sum_list_all_one)
qed

lemma pair_score_le_self_left:
  assumes "distinct_keys x" and "distinct_keys y"
  shows "pair_score x y \<le> pair_score x x"
  using assms
  by (cases x; cases y)
     (simp_all add: dict_score_self dict_score_le_left del: pair_score.simps(3))

lemma pair_score_le_self_right:
  assumes "distinct_keys x" and "distinct_keys y"
  shows "pair_score x y \<le> pair_score y y"
  using assms
  by (cases x; cases y)
     (simp_all add: dict_score_self dict_score_le_right del: pair_score.simps(3))

lemma pair_score_self_pos:
  assumes "distinct_keys x" and "x \<noteq> Mapping []"
  shows "0 < pair_score x x"
  using assms by (cases x) (simp_all add: dict_score_self del: pair_score.simps(3))

subsection \<open>The order of the ranked entries\<close>

lemma idx_less_asym: "idx_less p q \<Longrightarrow> \<not> idx_less q p"
  by (cases p; cases q) auto

lemma ranks_before_asym: "ranks_before a b \<Longrightarrow> \<not> ranks_before b a"
  by (auto simp: ranks_before_def dest: idx_less_asym)

lemma ranks_before_score: "ranks_before a b \<Longrightarrow> fst b \<le> fst a"
  by (auto simp: ranks_before_def)

lemma ranked_merged:
  assumes "sorted_wrt ranks_before h1" and "sorted_wrt ranks_before h2"
    and "\<forall>a \<in> set h1. \<forall>b \<in> set h2. idx_less (snd a) (snd b)"
  shows "sorted_wrt ranks_before (merged h1 h2)"
  using assms
proof (induction h1 h2 rule: merged.induct)
  case (1 h2)
  then show ?case by simp
next
  case (2 a h1)
  then show ?case by simp
next
  case (3 a h1 b h2)
  show ?case
  proof (cases "fst a > fst b")
    case True
    have rest: "sorted_wrt ranks_before (merged h1 (b # h2))"
      using "3.IH"(1) [OF True] "3.prems" by simp
    have "ranks_before a x" if "x \<in> set (b # h2)" for x
    proof -
      have "fst x \<le> fst b" using that "3.prems"(2) by (auto dest: ranks_before_score)
      then show ?thesis using True by (simp add: ranks_before_def)
    qed
    moreover have "ranks_before a x" if "x \<in> set h1" for x
      using that "3.prems"(1) by simp
    ultimately show ?thesis using True rest by (auto simp: set_merged)
  next
    case False
    have rest: "sorted_wrt ranks_before (merged (a # h1) h2)"
      using "3.IH"(2) [OF False] "3.prems" by simp
    have "ranks_before b x" if "x \<in> set (a # h1)" for x
    proof -
      have "fst x \<le> fst a" using that "3.prems"(1) by (auto dest: ranks_before_score)
      moreover have "idx_less (snd x) (snd b)" using that "3.prems"(3) by auto
      ultimately show ?thesis using False by (auto simp: ranks_before_def)
    qed
    moreover have "ranks_before b x" if "x \<in> set h2" for x
      using that "3.prems"(2) by simp
    ultimately show ?thesis using False rest by (auto simp: set_merged)
  qed
qed

lemma set_sort_similarity_list: "set (sort_similarity_list sl) = set sl"
  by (metis mset_sort_similarity_list set_mset_mset)

lemma ranked_sort_similarity_list:
  "sorted_wrt (\<lambda>a b. idx_less (snd a) (snd b)) sl \<Longrightarrow>
   sorted_wrt ranks_before (sort_similarity_list sl)"
proof (induction sl rule: sort_similarity_list.induct)
  case (1 sl)
  show ?case
  proof (cases "length sl \<le> 1")
    case True
    then show ?thesis
      by (cases sl) (simp_all add: sort_similarity_list_short)
  next
    case False
    let ?n = "length sl div 2"
    have "sorted_wrt (\<lambda>a b. idx_less (snd a) (snd b)) (take ?n sl @ drop ?n sl)"
      using "1.prems" by simp
    then have t: "sorted_wrt (\<lambda>a b. idx_less (snd a) (snd b)) (take ?n sl)"
      and d: "sorted_wrt (\<lambda>a b. idx_less (snd a) (snd b)) (drop ?n sl)"
      and x: "\<forall>a \<in> set (take ?n sl). \<forall>b \<in> set (drop ?n sl). idx_less (snd a) (snd b)"
      unfolding sorted_wrt_append by auto
    have "sorted_wrt ranks_before
            (merged (sort_similarity_list (take ?n sl)) (sort_similarity_list (drop ?n sl)))"
      by (rule ranked_merged)
         (use False t d x "1.IH" in \<open>simp_all add: set_sort_similarity_list\<close>)
    then show ?thesis using False by (simp add: sort_similarity_list_split)
  qed
qed

lemma sim_list_prefix:
  "concat (map (\<lambda>r. map (\<lambda>c. (sm ! r ! c, r, c)) [0..<length (sm ! r)]) [0..<Suc k])
     = concat (map (\<lambda>r. map (\<lambda>c. (sm ! r ! c, r, c)) [0..<length (sm ! r)]) [0..<k])
       @ map (\<lambda>c. (sm ! k ! c, k, c)) [0..<length (sm ! k)]"
  by simp

lemma sim_list_rows_sorted:
  "sorted_wrt (\<lambda>a b. idx_less (snd a) (snd b))
     (concat (map (\<lambda>r. map (\<lambda>c. (sm ! r ! c, r, c)) [0..<length (sm ! r)]) [0..<k]))
   \<and> (\<forall>e \<in> set (concat (map (\<lambda>r. map (\<lambda>c. (sm ! r ! c, r, c)) [0..<length (sm ! r)]) [0..<k])).
         fst (snd e) < k)"
proof (induction k)
  case 0
  show ?case by simp
next
  case (Suc k)
  have row: "sorted_wrt (\<lambda>a b. idx_less (snd a) (snd b))
               (map (\<lambda>c. (sm ! k ! c, k, c)) [0..<length (sm ! k)])"
    by (simp add: sorted_wrt_map sorted_wrt_iff_nth_less)
  show ?case
    unfolding sim_list_prefix sorted_wrt_append
    using Suc row by (auto simp: less_Suc_eq)
qed

lemma sim_list_sorted: "sorted_wrt (\<lambda>a b. idx_less (snd a) (snd b)) (sim_list sm)"
  unfolding sim_list_def using sim_list_rows_sorted [of sm "length sm"] by simp

lemma set_sim_list:
  "set (sim_list sm) = {(sm ! r ! c, r, c) | r c. r < length sm \<and> c < length (sm ! r)}"
  by (auto simp: sim_list_def)

lemma ranked_sort_similarity_matrix: "sorted_wrt ranks_before (sort_similarity_matrix sm)"
  unfolding sort_similarity_matrix_def
  by (rule ranked_sort_similarity_list) (rule sim_list_sorted)

lemma set_sort_similarity_matrix:
  "set (sort_similarity_matrix sm)
     = {(sm ! r ! c, r, c) | r c. r < length sm \<and> c < length (sm ! r)}"
  by (simp add: sort_similarity_matrix_def set_sort_similarity_list set_sim_list)

lemma ranked_earlier:
  assumes "sorted_wrt ranks_before (pre @ e # post)"
    and "e' \<in> set (pre @ e # post)" and "ranks_before e' e"
  shows "e' \<in> set pre"
proof (rule ccontr)
  assume "e' \<notin> set pre"
  then have "e' = e \<or> e' \<in> set post" using assms(2) by auto
  moreover have "\<forall>x \<in> set post. ranks_before e x"
    using assms(1) by (simp add: sorted_wrt_append)
  ultimately show False using assms(3) ranks_before_asym by blast
qed

subsection \<open>The labelling loop on a list and itself\<close>

lemma fold_err_prefix_from:
  assumes "\<And>pre x post t. xs = pre @ x # post \<Longrightarrow> I pre t \<Longrightarrow> \<exists>t'. f x t = Inr t' \<and> I (pre @ [x]) t'"
    and "xs = done @ rest" and "I done s"
  shows "\<exists>s'. fold_err f rest s = Inr s' \<and> I xs s'"
  using assms(2,3)
proof (induction rest arbitrary: "done" s)
  case Nil
  then show ?case by simp
next
  case (Cons x rest)
  obtain t where t: "f x s = Inr t" "I (done @ [x]) t"
    using assms(1) [OF Cons.prems(1) Cons.prems(2)] by blast
  have "xs = (done @ [x]) @ rest" using Cons.prems(1) by simp
  from Cons.IH [OF this t(2)] show ?case using t(1) by simp
qed

lemma fold_err_prefix:
  assumes "I [] s"
    and "\<And>pre x post t. xs = pre @ x # post \<Longrightarrow> I pre t \<Longrightarrow> \<exists>t'. f x t = Inr t' \<and> I (pre @ [x]) t'"
  shows "\<exists>s'. fold_err f xs s = Inr s' \<and> I xs s'"
  by (rule fold_err_prefix_from [where ?done = "[]"]) (use assms in simp_all)

lemma dispatch_same_index:
  assumes "r < length l"
  shows "dispatch l r l r = Inr Neither \<or> (\<exists>a. dispatch l r l r = Inr (BothDict a a))
         \<or> (\<exists>a. dispatch l r l r = Inr (BothList a a))"
  using assms by (cases "l ! r") (simp_all add: dispatch_def)

lemma label_step_diag:
  assumes good: "\<forall>x \<in> set l. distinct_keys x \<and> x \<noteq> Mapping []"
    and sorted: "sorted_wrt ranks_before (pre @ e # post)"
    and elems: "set (pre @ e # post)
                  = {(pair_score (l ! r) (l ! c), r, c) | r c. r < length l \<and> c < length l}"
    and inv: "diag_inv l pre st"
  shows "\<exists>st'. label_step l l e st = Inr st' \<and> diag_inv l (pre @ [e]) st'"
proof -
  let ?S = "seen_l1_indices st"
  let ?d = "\<lambda>i. pair_score (l ! i) (l ! i)"
  have "e \<in> set (pre @ e # post)" by simp
  then have "e \<in> {(pair_score (l ! r) (l ! c), r, c) | r c. r < length l \<and> c < length l}"
    unfolding elems .
  then obtain r c where e: "e = (pair_score (l ! r) (l ! c), r, c)"
    and r: "r < length l" and c: "c < length l"
    by blast
  let ?s = "pair_score (l ! r) (l ! c)"
  have seen2: "seen_l2_indices st = ?S" using inv by (simp add: diag_inv_def)
  have g: "distinct_keys (l ! i) \<and> l ! i \<noteq> Mapping []" if "i < length l" for i
    using good that by simp
  have pos: "0 < ?d i" if "i < length l" for i
    using g [OF that] by (simp add: pair_score_self_pos)
  have earlier: "i \<in> ?S" if "i < length l" and "ranks_before (?d i, i, i) e" for i
  proof -
    have "(?d i, i, i) \<in> set (pre @ e # post)" unfolding elems using that(1) by blast
    then have "(?d i, i, i) \<in> set pre" by (rule ranked_earlier [OF sorted _ that(2)])
    then show ?thesis using inv that(1) by (simp add: diag_inv_def)
  qed
  have nonneg: "0 \<le> ?s" by (rule pair_score_nonneg)
  have le_r: "?s \<le> ?d r" using g [OF r] g [OF c] by (simp add: pair_score_le_self_left)
  have le_c: "?s \<le> ?d c" using g [OF r] g [OF c] by (simp add: pair_score_le_self_right)
  show ?thesis
  proof (cases "0 < ?s \<and> r \<notin> ?S \<and> c \<notin> ?S")
    case True
    have "r = c"
    proof (rule ccontr)
      assume ne: "r \<noteq> c"
      show False
      proof (cases "c < r")
        case True
        have "ranks_before (?d r, r, r) e" using le_r True by (auto simp: ranks_before_def e)
        then have "r \<in> ?S" by (rule earlier [OF r])
        then show False using \<open>0 < ?s \<and> r \<notin> ?S \<and> c \<notin> ?S\<close> by simp
      next
        case False
        then have "r < c" using ne by simp
        then have "ranks_before (?d c, c, c) e" using le_c by (auto simp: ranks_before_def e)
        then have "c \<in> ?S" by (rule earlier [OF c])
        then show False using \<open>0 < ?s \<and> r \<notin> ?S \<and> c \<notin> ?S\<close> by simp
      qed
    qed
    let ?st' = "st\<lparr>seen_l1_indices := insert r ?S, seen_l2_indices := insert r (seen_l2_indices st)\<rparr>"
    have base: "diag_inv l (pre @ [e]) ?st'"
      using inv seen2 by (auto simp: diag_inv_def e \<open>r = c\<close>)
    have queued: "diag_inv l (pre @ [e]) (?st'\<lparr>to_recurse := to_recurse ?st' @ [(r, r)]\<rparr>)"
      using base r by (auto simp: diag_inv_def)
    from dispatch_same_index [OF r] show ?thesis
      using True base queued seen2 by (auto simp: label_step_def e \<open>r = c\<close> Let_def)
  next
    case False
    have same: "diag_inv l (pre @ [e]) st"
    proof (cases "0 < ?s")
      case True
      then have "r \<in> ?S \<or> c \<in> ?S" using False by simp
      then show ?thesis using inv by (auto simp: diag_inv_def e)
    next
      case zero: False
      then have "?s = 0" using nonneg by simp
      then have "?d i \<noteq> ?s" if "i < length l" for i using pos [OF that] by simp
      then show ?thesis using inv by (auto simp: diag_inv_def e)
    qed
    have "label_step l l e st = Inr st"
    proof (cases "0 < ?s")
      case True
      then show ?thesis using False seen2 by (auto simp: label_step_def e)
    next
      case zero: False
      then have z: "?s = 0" using nonneg by simp
      have "ranks_before (?d r, r, r) e" using pos [OF r] z by (simp add: ranks_before_def e)
      then have "r \<in> ?S" by (rule earlier [OF r])
      moreover have "ranks_before (?d c, c, c) e" using pos [OF c] z by (simp add: ranks_before_def e)
      then have "c \<in> ?S" by (rule earlier [OF c])
      ultimately show ?thesis using z seen2 by (simp add: label_step_def e Let_def)
    qed
    then show ?thesis using same by simp
  qed
qed

subsection \<open>The whole diff\<close>

lemma fold_skip_all:
  "\<forall>i \<in> set xs. i \<in> A \<Longrightarrow> fold (\<lambda>i ms. if i \<notin> A then g i ms else ms) xs ms = ms"
  by (induction xs) simp_all

lemma wf_val_distinct_keys: "wf_val x \<Longrightarrow> distinct_keys x"
  by (cases x) simp_all

lemma label_matches_self:
  assumes "\<forall>x \<in> set l. distinct_keys x \<and> x \<noteq> Mapping []"
  shows "\<exists>q. label_matches l l = Inr ([], q)
             \<and> (\<forall>elem \<in> set q. fst elem = snd elem \<and> fst elem < length l)"
proof -
  obtain M where M: "create_similarity_matrix l l = Inr M"
    using create_similarity_matrix_square [of l l] by auto
  have len: "length M = length l" by (rule create_similarity_matrix_dims(1) [OF M])
  have row: "length (M ! r) = length l" if "r < length l" for r
    by (rule create_similarity_matrix_dims(2) [OF M that])
  have entry: "M ! r ! c = pair_score (l ! r) (l ! c)" if "r < length l" "c < length l" for r c
    using create_similarity_matrix_entry [OF M that] that by simp
  let ?xs = "sort_similarity_matrix M"
  have elems: "set ?xs = {(pair_score (l ! r) (l ! c), r, c) | r c. r < length l \<and> c < length l}"
    unfolding set_sort_similarity_matrix using len row entry by auto
  have sorted: "sorted_wrt ranks_before ?xs" by (rule ranked_sort_similarity_matrix)
  have "\<exists>st. fold_err (label_step l l) ?xs empty_labels = Inr st \<and> diag_inv l ?xs st"
  proof (rule fold_err_prefix)
    show "diag_inv l [] empty_labels" by (simp add: diag_inv_def empty_labels_def)
  next
    fix pre e post st
    assume split: "?xs = pre @ e # post" and inv: "diag_inv l pre st"
    show "\<exists>st'. label_step l l e st = Inr st' \<and> diag_inv l (pre @ [e]) st'"
      by (rule label_step_diag [OF assms _ _ inv, where post = post])
         (use sorted elems split in simp_all)
  qed
  then obtain st where st: "fold_err (label_step l l) ?xs empty_labels = Inr st"
    and inv: "diag_inv l ?xs st" by blast
  have seen: "i \<in> seen_l1_indices st" if "i < length l" for i
  proof -
    have "(pair_score (l ! i) (l ! i), i, i) \<in> set ?xs" unfolding elems using that by blast
    then show ?thesis using inv that by (simp add: diag_inv_def)
  qed
  have "label_stragglers l l st = []"
    using inv seen by (simp add: label_stragglers_def diag_inv_def fold_skip_all)
  then have "label_matches l l = Inr ([], to_recurse st)"
    using M st by (simp add: label_matches_def)
  then show ?thesis using inv by (auto simp: diag_inv_def)
qed

lemma for_loop_unchanged:
  assumes "\<And>x. x \<in> set xs \<Longrightarrow> body x s = (Inr s, [])"
  shows "for_loop xs s body = (Inr s, [])"
  using assms by (induction xs) simp_all

lemma no_nan_is_nan: "no_nan v \<Longrightarrow> \<not> is_nan v"
  by (cases v rule: is_nan.cases) simp_all

lemma no_nan_get: "no_nan (Mapping d) \<Longrightarrow> no_nan (dict_get d k)"
  by (auto simp: dict_get_def list_all_iff split: option.splits dest!: map_of_SomeD)

lemma classify_self:
  "no_nan (Mapping d) \<Longrightarrow>
   classify d d k (dks, lks, []) =
     (if is_dict (dict_get d k) then (dks @ [k], lks, [])
      else if is_list (dict_get d k) then (dks, lks @ [k], [])
      else (dks, lks, []))"
  using no_nan_is_nan [OF no_nan_get, of d k] by (simp add: classify_def py_ne_def)

lemma fold_classify_self:
  assumes "fold (classify d d) ks (dks, lks, []) = (dks', lks', rv)"
    and "\<forall>k \<in> set dks. is_dict (dict_get d k)" and "\<forall>k \<in> set lks. is_list (dict_get d k)"
    and nn: "no_nan (Mapping d)"
  shows "rv = [] \<and> (\<forall>k \<in> set dks'. is_dict (dict_get d k)) \<and> (\<forall>k \<in> set lks'. is_list (dict_get d k))"
  using assms
proof (induction ks arbitrary: dks lks)
  case Nil
  then show ?case by simp
next
  case (Cons k ks)
  show ?case
  proof (cases "is_dict (dict_get d k)")
    case True
    then show ?thesis
      using Cons.IH [of "dks @ [k]" lks] Cons.prems by (simp add: classify_self [OF nn])
  next
    case False
    show ?thesis
    proof (cases "is_list (dict_get d k)")
      case True
      then show ?thesis
        using False Cons.IH [of dks "lks @ [k]"] Cons.prems by (simp add: classify_self [OF nn])
    next
      case nl: False
      then show ?thesis
        using False Cons.IH [of dks lks] Cons.prems by (simp add: classify_self [OF nn])
    qed
  qed
qed

lemma is_dict_get:
  assumes "is_dict (dict_get d k)"
  shows "\<exists>a. map_of d k = Some (Mapping a) \<and> dict_items d k = Inr a"
proof (cases "map_of d k")
  case None
  then show ?thesis using assms by (simp add: dict_get_def)
next
  case (Some v)
  then show ?thesis using assms by (cases v) (simp_all add: dict_get_def dict_items_def)
qed

lemma is_list_get:
  assumes "is_list (dict_get d k)"
  shows "\<exists>a. map_of d k = Some (Sequence a) \<and> list_items d k = Inr a"
proof (cases "map_of d k")
  case None
  then show ?thesis using assms by (simp add: dict_get_def)
next
  case (Some v)
  then show ?thesis using assms by (cases v) (simp_all add: dict_get_def list_items_def)
qed

lemma good_list_elements:
  "wf_val (Sequence l) \<Longrightarrow> no_empty_dict_in_list (Sequence l) \<Longrightarrow>
   \<forall>x \<in> set l. distinct_keys x \<and> x \<noteq> Mapping []"
  by (auto simp: list_all_iff wf_val_distinct_keys)

lemma good_nth:
  "wf_val (Sequence l) \<Longrightarrow> no_empty_dict_in_list (Sequence l) \<Longrightarrow> no_nan (Sequence l) \<Longrightarrow>
   i < length l \<Longrightarrow> wf_val (l ! i) \<and> no_empty_dict_in_list (l ! i) \<and> no_nan (l ! i)"
  by (auto simp: list_all_iff)

lemma good_map_of:
  "wf_val (Mapping d) \<Longrightarrow> no_empty_dict_in_list (Mapping d) \<Longrightarrow> no_nan (Mapping d) \<Longrightarrow>
   map_of d k = Some v \<Longrightarrow> wf_val v \<and> no_empty_dict_in_list v \<and> no_nan v"
  by (auto simp: list_all_iff dest!: map_of_SomeD)

lemma dispatch_dict_nth:
  "dispatch l1 i l2 j = Inr (BothDict a b) \<Longrightarrow>
   i < length l1 \<and> j < length l2 \<and> l1 ! i = Mapping a \<and> l2 ! j = Mapping b"
  by (auto simp: dispatch_def split: if_splits val.splits)

lemma dispatch_list_nth:
  "dispatch l1 i l2 j = Inr (BothList a b) \<Longrightarrow>
   i < length l1 \<and> j < length l2 \<and> l1 ! i = Sequence a \<and> l2 ! j = Sequence b"
  by (auto simp: dispatch_def split: if_splits val.splits)

lemma diff_self_empty:
  shows list_diff_self:
      "l1 = l2 \<Longrightarrow> wf_val (Sequence l1) \<Longrightarrow> no_empty_dict_in_list (Sequence l1) \<Longrightarrow>
       no_nan (Sequence l1) \<Longrightarrow> list_diff l1 l2 = (Inr [], [])"
    and dict_diff_self:
      "d1 = d2 \<Longrightarrow> wf_val (Mapping d1) \<Longrightarrow> no_empty_dict_in_list (Mapping d1) \<Longrightarrow>
       no_nan (Mapping d1) \<Longrightarrow> dict_diff d1 d2 = (Inr [], [])"
proof (induction l1 l2 and d1 d2 rule: list_diff_dict_diff.induct)
  case (1 l1 l2)
  have eq: "l2 = l1" using "1.prems"(1) by simp
  have good: "\<forall>x \<in> set l1. distinct_keys x \<and> x \<noteq> Mapping []"
    by (rule good_list_elements [OF "1.prems"(2,3)])
  obtain q where lm: "label_matches l1 l1 = Inr ([], q)"
    and q: "\<forall>elem \<in> set q. fst elem = snd elem \<and> fst elem < length l1"
    using label_matches_self [OF good] by blast
  have lm2: "label_matches l1 l2 = Inr ([], q)" using lm eq by simp
  have body: "recurse_on l1 l1 elem [] = (Inr [], [])" if elem: "elem \<in> set q" for elem
  proof -
    have i: "snd elem = fst elem" "fst elem < length l1" using q elem by auto
    from dispatch_same_index [OF i(2)] consider
      (neither) "dispatch l1 (fst elem) l1 (fst elem) = Inr Neither"
      | (dicts) a where "dispatch l1 (fst elem) l1 (fst elem) = Inr (BothDict a a)"
      | (lists) a where "dispatch l1 (fst elem) l1 (fst elem) = Inr (BothList a a)"
      by blast
    then show ?thesis
    proof cases
      case neither
      have "same_shape_pair l1 l1 (fst elem, snd elem)"
        using label_matches_queue [OF lm] elem by simp
      then have False
        unfolding dispatch_same_shape using neither i(1) by simp
      then show ?thesis ..
    next
      case dicts
      have d2: "dispatch l1 (fst elem) l2 (snd elem) = Inr (BothDict a a)"
        using dicts i(1) eq by simp
      have "l1 ! fst elem = Mapping a" using dispatch_dict_nth [OF dicts] by simp
      then have g: "wf_val (Mapping a) \<and> no_empty_dict_in_list (Mapping a) \<and> no_nan (Mapping a)"
        using good_nth [OF "1.prems"(2,3,4) i(2)] by simp
      have "dict_diff a a = (Inr [], [])"
        using "1.IH"(1) [OF lm2 refl elem d2 refl refl] g by simp
      then show ?thesis using dicts i(1) by (simp add: recurse_on_def)
    next
      case lists
      have d2: "dispatch l1 (fst elem) l2 (snd elem) = Inr (BothList a a)"
        using lists i(1) eq by simp
      have "l1 ! fst elem = Sequence a" using dispatch_list_nth [OF lists] by simp
      then have g: "wf_val (Sequence a) \<and> no_empty_dict_in_list (Sequence a) \<and> no_nan (Sequence a)"
        using good_nth [OF "1.prems"(2,3,4) i(2)] by simp
      have "list_diff a a = (Inr [], [])"
        using "1.IH"(2) [OF lm2 refl elem d2 refl refl] g by simp
      then show ?thesis using lists i(1) by (simp add: recurse_on_def)
    qed
  qed
  have "run_recursions l1 l1 q [] = (Inr [], [])"
    unfolding run_recursions_def by (rule for_loop_unchanged) (rule body)
  then show ?case using lm eq by (simp add: list_diff_unfold)
next
  case (2 d1 d2)
  have eq: "d2 = d1" using "2.prems"(1) by simp
  obtain dks lks rv where c: "fold (classify d1 d1) (dict_keys d1 d1) ([], [], []) = (dks, lks, rv)"
    by (cases "fold (classify d1 d1) (dict_keys d1 d1) ([], [], [])") auto
  have c2: "(dks, lks, rv) = fold (classify d1 d2) (dict_keys d1 d2) ([], [], [])"
    using c eq by simp
  have rv: "rv = []" and dks: "\<forall>k \<in> set dks. is_dict (dict_get d1 k)"
    and lks: "\<forall>k \<in> set lks. is_list (dict_get d1 k)"
    using fold_classify_self [OF c _ _ "2.prems"(4)] by simp_all
  have dbody: "recurse_on_dict_key d1 d1 k [] = (Inr [], [])" if k: "k \<in> set dks" for k
  proof -
    obtain a where m: "map_of d1 k = Some (Mapping a)" and a: "dict_items d1 k = Inr a"
      using is_dict_get dks k by blast
    have g: "wf_val (Mapping a) \<and> no_empty_dict_in_list (Mapping a) \<and> no_nan (Mapping a)"
      by (rule good_map_of [OF "2.prems"(2,3,4) m])
    have a2: "dict_items d2 k = Inr a" using a eq by simp
    have "dict_diff a a = (Inr [], [])"
      using "2.IH"(1) [OF c2 refl k a a2 refl] g by simp
    then show ?thesis using a by (simp add: recurse_on_dict_key_def)
  qed
  have first: "for_loop dks [] (recurse_on_dict_key d1 d1) = (Inr [], [])"
    by (rule for_loop_unchanged) (rule dbody)
  have lbody: "recurse_on_list_key d1 d1 k [] = (Inr [], [])" if k: "k \<in> set lks" for k
  proof -
    obtain a where m: "map_of d1 k = Some (Sequence a)" and a: "list_items d1 k = Inr a"
      using is_list_get lks k by blast
    have g: "wf_val (Sequence a) \<and> no_empty_dict_in_list (Sequence a) \<and> no_nan (Sequence a)"
      by (rule good_map_of [OF "2.prems"(2,3,4) m])
    have a2: "list_items d2 k = Inr a" using a eq by simp
    have f2: "for_loop dks rv
            (\<lambda>k return_values.
                case dict_items d1 k of Inl e \<Rightarrow> (Inl e, [])
                | Inr a \<Rightarrow>
                    (case dict_items d2 k of Inl e \<Rightarrow> (Inl e, [])
                    | Inr b \<Rightarrow>
                        then_do (dict_diff a b)
                         (\<lambda>tmp_non_match_list.
                             (Inr (return_values @
                                   map (\<lambda>retvals. Key k # retvals) tmp_non_match_list),
                              [])))) = (Inr [], [])"
      using first unfolding recurse_on_dict_key_def eq rv .
    have "list_diff a a = (Inr [], [])"
      using "2.IH"(2) [OF c2 refl f2 k a a2 refl] g by simp
    then show ?thesis using a by (simp add: recurse_on_list_key_def)
  qed
  have second: "for_loop lks [] (recurse_on_list_key d1 d1) = (Inr [], [])"
    by (rule for_loop_unchanged) (rule lbody)
  show ?case
    unfolding eq dict_diff_unfold [of d1 d1] c prod.case rv
    using first second by simp
qed

text \<open>
  C2, as stated: diffing a well-formed tree against itself returns no mismatch, also when
  a list of the tree has an empty dict among its elements. The list \<^verbatim>\<open>[{}]\<close> is
  well-formed, and \<^verbatim>\<open>list_diff([{}], [{}])\<close> returns two paths: an empty dict scores 0
  with every element, itself included, and a zero score is a mismatch on both sides. A NaN
  leaf is a second case: line 239 compares the two values of a key with \<^verbatim>\<open>!=\<close>, which
  holds for NaN against itself, so \<^verbatim>\<open>dict_diff({'a': x}, {'a': x})\<close> with
  \<^verbatim>\<open>x = float('nan')\<close> returns the path \<^verbatim>\<open>['a']\<close>.
\<close>

theorem diff_against_itself_fails:
  "wf_val (Sequence [Mapping []])
   \<and> map_sum id length (fst (list_diff [Mapping []] [Mapping []])) = Inr 2
   \<and> wf_val (Mapping [(SStr ''a'', Scalar (SNaN 0))])
   \<and> dict_diff [(SStr ''a'', Scalar (SNaN 0))] [(SStr ''a'', Scalar (SNaN 0))]
       = (Inr [[Key (SStr ''a'')]], [])"
  by code_simp

text \<open>
  In a list, a NaN object finds itself in the lookup table of line 53 and is matched; a
  copy of the list with a NaN object of its own finds nothing, and both sides are
  mismatches.
\<close>

lemma list_diff_nan_objects:
  "list_diff [Scalar (SNaN 0)] [Scalar (SNaN 0)] = (Inr [], [])
   \<and> map_sum id length (fst (list_diff [Scalar (SNaN 0)] [Scalar (SNaN 1)])) = Inr 2"
  by code_simp

text \<open>
  C2, amended: for every well-formed tree that holds no NaN and in which no list has an
  empty dict among its elements, diffing the tree against itself returns the empty list and
  prints nothing, whether the root is a list or a dict. Lists may hold empty lists, and
  dicts may hold empty dicts as values. Without NaN a structurally identical copy of the
  tree is the same value of the model.
\<close>

theorem diff_against_itself:
  assumes "wf_val T" and "no_empty_dict_in_list T" and "no_nan T"
  shows "(\<forall>l. T = Sequence l \<longrightarrow> list_diff l l = (Inr [], []))
       \<and> (\<forall>d. T = Mapping d \<longrightarrow> dict_diff d d = (Inr [], []))"
  using assms list_diff_self dict_diff_self by blast

theorem diff_against_itself_witness:
  "wf_val (Sequence [Scalar (SInt 1), Scalar (SFloat 1 1), Sequence [],
                     Mapping [(SStr ''a'', Mapping []), (SStr ''b'', Scalar (SInf True))]])
   \<and> no_empty_dict_in_list
        (Sequence [Scalar (SInt 1), Scalar (SFloat 1 1), Sequence [],
                   Mapping [(SStr ''a'', Mapping []), (SStr ''b'', Scalar (SInf True))]])
   \<and> no_nan (Sequence [Scalar (SInt 1), Scalar (SFloat 1 1), Sequence [],
                      Mapping [(SStr ''a'', Mapping []), (SStr ''b'', Scalar (SInf True))]])
   \<and> list_diff [Scalar (SInt 1), Scalar (SFloat 1 1), Sequence [],
                 Mapping [(SStr ''a'', Mapping []), (SStr ''b'', Scalar (SInf True))]]
        [Scalar (SInt 1), Scalar (SFloat 1 1), Sequence [],
         Mapping [(SStr ''a'', Mapping []), (SStr ''b'', Scalar (SInf True))]] = (Inr [], [])"
proof -
  let ?l = "[Scalar (SInt 1), Scalar (SFloat 1 1), Sequence [],
             Mapping [(SStr ''a'', Mapping []), (SStr ''b'', Scalar (SInf True))]]"
  have w: "wf_val (Sequence ?l)" by simp
  have n: "no_empty_dict_in_list (Sequence ?l)" by simp
  have f: "no_nan (Sequence ?l)" by simp
  show ?thesis using diff_against_itself [OF w n f] w n f by simp
qed

section \<open>The only exception is IndexError\<close>

text \<open>
  The errors of \<open>dict_items\<close> and \<open>list_items\<close> never occur: a key is put in
  \<^verbatim>\<open>dict_keys_to_recurse\<close> or \<^verbatim>\<open>list_keys_to_recurse\<close> only when both dicts hold a
  value of that shape for it. What the differs can raise is the IndexError of a subscript.
\<close>

lemma fold_err_Inl:
  assumes "fold_err f xs s = Inl e"
  shows "\<exists>x \<in> set xs. \<exists>t. f x t = Inl e"
  using assms
proof (induction xs arbitrary: s)
  case Nil
  then show ?case by simp
next
  case (Cons x xs)
  show ?case
  proof (cases "f x s")
    case (Inl e')
    then show ?thesis using Cons.prems by auto
  next
    case (Inr t)
    then have "fold_err f xs t = Inl e" using Cons.prems by simp
    then show ?thesis using Cons.IH by auto
  qed
qed

lemma incr_Inl: "incr M i j = Inl e \<Longrightarrow> e = IndexError"
  by (auto simp: incr_def split: if_splits)

lemma incr_all_Inl: "incr_all i js M = Inl e \<Longrightarrow> e = IndexError"
  unfolding incr_all_def by (auto dest!: fold_err_Inl incr_Inl)

lemma score_elem_Inl: "score_elem b i x M = Inl e \<Longrightarrow> e = IndexError"
  by (cases x) (auto simp: score_item_bucket dest!: fold_err_Inl incr_all_Inl)

lemma create_similarity_matrix_Inl: "create_similarity_matrix l1 l2 = Inl e \<Longrightarrow> e = IndexError"
  unfolding create_similarity_matrix_def Let_def by (auto dest!: fold_err_Inl score_elem_Inl)

lemma dispatch_Inl: "dispatch l1 i l2 j = Inl e \<Longrightarrow> e = IndexError"
  by (auto simp: dispatch_def split: if_splits val.splits)

lemma label_step_Inl: "label_step l1 l2 en st = Inl e \<Longrightarrow> e = IndexError"
  by (cases en)
     (auto simp: label_step_def Let_def split: if_splits sum.splits shape_pair.splits
           dest: dispatch_Inl)

lemma label_matches_Inl: "label_matches l1 l2 = Inl e \<Longrightarrow> e = IndexError"
  by (auto simp: label_matches_def Let_def split: sum.splits
           dest!: create_similarity_matrix_Inl fold_err_Inl label_step_Inl)

lemma then_do_Inl_iff:
  "fst (then_do m f) = Inl e \<longleftrightarrow>
     fst m = Inl e \<or> (\<exists>x out. m = (Inr x, out) \<and> fst (f x) = Inl e)"
proof (cases m)
  case (Pair r out)
  then show ?thesis by (cases r) auto
qed

lemma for_loop_Inl:
  assumes "fst (for_loop xs s body) = Inl e"
  shows "\<exists>x \<in> set xs. \<exists>t. fst (body x t) = Inl e"
  using assms
proof (induction xs arbitrary: s)
  case Nil
  then show ?case by simp
next
  case (Cons x xs)
  then show ?case by (auto simp: then_do_Inl_iff)
qed

lemma fold_classify_shapes:
  assumes "fold (classify d1 d2) ks (dks, lks, rv) = (dks', lks', rv')"
    and "\<forall>k \<in> set dks. is_dict (dict_get d1 k) \<and> is_dict (dict_get d2 k)"
    and "\<forall>k \<in> set lks. is_list (dict_get d1 k) \<and> is_list (dict_get d2 k)"
  shows "(\<forall>k \<in> set dks'. is_dict (dict_get d1 k) \<and> is_dict (dict_get d2 k))
       \<and> (\<forall>k \<in> set lks'. is_list (dict_get d1 k) \<and> is_list (dict_get d2 k))"
  using assms
proof (induction ks arbitrary: dks lks rv)
  case Nil
  then show ?case by simp
next
  case (Cons k ks)
  obtain a b c where step: "classify d1 d2 k (dks, lks, rv) = (a, b, c)"
    by (cases "classify d1 d2 k (dks, lks, rv)") auto
  have "(\<forall>k \<in> set a. is_dict (dict_get d1 k) \<and> is_dict (dict_get d2 k))
      \<and> (\<forall>k \<in> set b. is_list (dict_get d1 k) \<and> is_list (dict_get d2 k))"
    using step Cons.prems(2,3) by (auto simp: classify_def split: if_splits)
  then show ?case using Cons.IH [of a b c] Cons.prems(1) step by simp
qed

lemma differs_raise_index_error_only:
  shows list_diff_raises: "fst (list_diff l1 l2) = Inl e \<Longrightarrow> e = IndexError"
    and dict_diff_raises: "fst (dict_diff d1 d2) = Inl e \<Longrightarrow> e = IndexError"
proof (induction l1 l2 and d1 d2 rule: list_diff_dict_diff.induct)
  case (1 l1 l2)
  show ?case
  proof (cases "label_matches l1 l2")
    case (Inl e')
    then show ?thesis using "1.prems" label_matches_Inl by (simp add: list_diff_unfold)
  next
    case (Inr p)
    obtain ms q where p: "p = (ms, q)" by (cases p)
    have "fst (for_loop q (map (\<lambda>elem. [elem]) ms) (recurse_on l1 l2)) = Inl e"
      using "1.prems" Inr p by (simp add: list_diff_unfold run_recursions_def)
    then obtain x t where x: "x \<in> set q" and b: "fst (recurse_on l1 l2 x t) = Inl e"
      by (auto dest!: for_loop_Inl)
    show ?thesis
    proof (cases "dispatch l1 (fst x) l2 (snd x)")
      case (Inl e')
      then show ?thesis using b dispatch_Inl by (simp add: recurse_on_def)
    next
      case d: (Inr sp)
      show ?thesis
      proof (cases sp)
        case (BothDict a1 a2)
        have "fst (dict_diff a1 a2) = Inl e"
          using b d BothDict by (auto simp: recurse_on_def then_do_Inl_iff)
        then show ?thesis by (rule "1.IH"(1) [OF Inr p [symmetric] x d BothDict])
      next
        case (BothList a1 a2)
        have "fst (list_diff a1 a2) = Inl e"
          using b d BothList by (auto simp: recurse_on_def then_do_Inl_iff)
        then show ?thesis by (rule "1.IH"(2) [OF Inr p [symmetric] x d BothList])
      next
        case Neither
        then show ?thesis using b d by (simp add: recurse_on_def)
      qed
    qed
  qed
next
  case (2 d1 d2)
  obtain dks lks rv where c: "fold (classify d1 d2) (dict_keys d1 d2) ([], [], []) = (dks, lks, rv)"
    by (cases "fold (classify d1 d2) (dict_keys d1 d2) ([], [], [])") auto
  have shapes: "(\<forall>k \<in> set dks. is_dict (dict_get d1 k) \<and> is_dict (dict_get d2 k))
      \<and> (\<forall>k \<in> set lks. is_list (dict_get d1 k) \<and> is_list (dict_get d2 k))"
    by (rule fold_classify_shapes [OF c]) simp_all
  let ?first = "for_loop dks rv (recurse_on_dict_key d1 d2)"
  from "2.prems" consider (first) "fst ?first = Inl e"
    | (second) rv1 out where "?first = (Inr rv1, out)"
        and "fst (for_loop lks rv1 (recurse_on_list_key d1 d2)) = Inl e"
    unfolding dict_diff_unfold [of d1 d2] c prod.case then_do_Inl_iff by blast
  then show ?case
  proof cases
    case first
    then obtain k t where k: "k \<in> set dks" and b: "fst (recurse_on_dict_key d1 d2 k t) = Inl e"
      by (auto dest!: for_loop_Inl)
    obtain a1 a2 where a: "dict_items d1 k = Inr a1" "dict_items d2 k = Inr a2"
      using is_dict_get shapes k by blast
    have "fst (dict_diff a1 a2) = Inl e"
      using b a by (auto simp: recurse_on_dict_key_def then_do_Inl_iff)
    then show ?thesis by (rule "2.IH"(1) [OF c [symmetric] refl k a])
  next
    case second
    from second(2) obtain k t where k: "k \<in> set lks" and b: "fst (recurse_on_list_key d1 d2 k t) = Inl e"
      by (auto dest!: for_loop_Inl)
    obtain a1 a2 where a: "list_items d1 k = Inr a1" "list_items d2 k = Inr a2"
      using is_list_get shapes k by blast
    have l: "fst (list_diff a1 a2) = Inl e"
      using b a by (auto simp: recurse_on_list_key_def then_do_Inl_iff)
    have f: "for_loop dks rv
            (\<lambda>k return_values.
                case dict_items d1 k of Inl e \<Rightarrow> (Inl e, [])
                | Inr a \<Rightarrow>
                    (case dict_items d2 k of Inl e \<Rightarrow> (Inl e, [])
                    | Inr b \<Rightarrow>
                        then_do (dict_diff a b)
                         (\<lambda>tmp_non_match_list.
                             (Inr (return_values @
                                   map (\<lambda>retvals. Key k # retvals) tmp_non_match_list),
                              [])))) = (Inr rv1, out)"
      using second(1) unfolding recurse_on_dict_key_def .
    show ?thesis by (rule "2.IH"(2) [OF c [symmetric] refl f k a l])
  qed
qed

section \<open>A missing key and a key set to None\<close>

lemma fold_classify_filter:
  "fold (classify d1 d2) ks (a, b, c) =
     (a @ filter (both_dicts d1 d2) ks,
      b @ filter (\<lambda>k. \<not> both_dicts d1 d2 k \<and> both_lists d1 d2 k) ks,
      c @ map (\<lambda>k. [Key k])
            (filter (\<lambda>k. \<not> both_dicts d1 d2 k \<and> \<not> both_lists d1 d2 k
                          \<and> py_ne (dict_get d1 k) (dict_get d2 k)) ks))"
  by (induction ks arbitrary: a b c) (simp_all add: classify_def both_dicts_def both_lists_def)

lemma fst_then_do:
  "fst (then_do m f) = (case fst m of Inl e \<Rightarrow> Inl e | Inr x \<Rightarrow> fst (f x))"
proof (cases m)
  case (Pair r out)
  then show ?thesis by (cases r) simp_all
qed

lemma for_loop_collect:
  assumes "\<And>k s. k \<in> set ks \<Longrightarrow>
             fst (body k s) = (case r k of Inl e \<Rightarrow> Inl e | Inr ps \<Rightarrow> Inr (s @ ps))"
  shows "fst (for_loop ks s body) = collect r ks s"
  using assms
proof (induction ks arbitrary: s)
  case Nil
  show ?case by simp
next
  case (Cons k ks)
  have b: "fst (body k s) = (case r k of Inl e \<Rightarrow> Inl e | Inr ps \<Rightarrow> Inr (s @ ps))"
    using Cons.prems by simp
  have rest: "fst (for_loop ks s' body) = collect r ks s'" for s'
    using Cons.IH Cons.prems by simp
  show ?case by (cases "r k") (simp_all add: fst_then_do b rest)
qed

lemma collect_append:
  "collect r (ks @ ks') s = (case collect r ks s of Inl e \<Rightarrow> Inl e | Inr s' \<Rightarrow> collect r ks' s')"
  by (induction ks arbitrary: s) (simp_all split: sum.splits)

lemma collect_mset:
  assumes "\<And>k e. k \<in> set ks \<Longrightarrow> r k = Inl e \<Longrightarrow> e = IndexError"
  shows "map_sum id mset (collect r ks s) =
           (if \<exists>k \<in> set ks. isl (r k) then Inl IndexError
            else Inr (mset s + (\<Sum>k\<leftarrow>ks. mset (projr (r k)))))"
  using assms
proof (induction ks arbitrary: s)
  case Nil
  show ?case by simp
next
  case (Cons k ks)
  show ?case
  proof (cases "r k")
    case (Inl e)
    then have "e = IndexError" using Cons.prems [of k e] by simp
    then show ?thesis using Inl by simp
  next
    case (Inr ps)
    have "map_sum id mset (collect r ks (s @ ps)) =
           (if \<exists>k \<in> set ks. isl (r k) then Inl IndexError
            else Inr (mset (s @ ps) + (\<Sum>k\<leftarrow>ks. mset (projr (r k)))))"
      by (rule Cons.IH) (use Cons.prems in auto)
    then show ?thesis using Inr by (simp add: id_def ac_simps)
  qed
qed

lemma dict_get_Mapping: "map_of d k = Some v \<Longrightarrow> dict_get d k = v"
  by (simp add: dict_get_def)

lemma recurse_on_dict_key_paths:
  assumes "both_dicts d1 d2 k"
  shows "fst (recurse_on_dict_key d1 d2 k s) =
           (case key_paths d1 d2 k of Inl e \<Rightarrow> Inl e | Inr ps \<Rightarrow> Inr (s @ ps))"
proof -
  obtain a where a: "map_of d1 k = Some (Mapping a)" "dict_items d1 k = Inr a"
    using is_dict_get assms unfolding both_dicts_def by blast
  obtain b where b: "map_of d2 k = Some (Mapping b)" "dict_items d2 k = Inr b"
    using is_dict_get assms unfolding both_dicts_def by blast
  have kp: "key_paths d1 d2 k = map_sum id (map ((#) (Key k))) (fst (dict_diff a b))"
    by (simp add: key_paths_def dict_get_Mapping [OF a(1)] dict_get_Mapping [OF b(1)])
  show ?thesis
    unfolding kp recurse_on_dict_key_def a(2) b(2)
    by (cases "fst (dict_diff a b)") (simp_all add: fst_then_do)
qed

lemma recurse_on_list_key_paths:
  assumes "both_lists d1 d2 k"
  shows "fst (recurse_on_list_key d1 d2 k s) =
           (case key_paths d1 d2 k of Inl e \<Rightarrow> Inl e | Inr ps \<Rightarrow> Inr (s @ ps))"
proof -
  obtain a where a: "map_of d1 k = Some (Sequence a)" "list_items d1 k = Inr a"
    using is_list_get assms unfolding both_lists_def by blast
  obtain b where b: "map_of d2 k = Some (Sequence b)" "list_items d2 k = Inr b"
    using is_list_get assms unfolding both_lists_def by blast
  have kp: "key_paths d1 d2 k = map_sum id (map ((#) (Key k))) (fst (list_diff a b))"
    by (simp add: key_paths_def dict_get_Mapping [OF a(1)] dict_get_Mapping [OF b(1)])
  show ?thesis
    unfolding kp recurse_on_list_key_def a(2) b(2)
    by (cases "fst (list_diff a b)") (simp_all add: fst_then_do)
qed

lemma key_paths_Inl: "key_paths d1 d2 k = Inl e \<Longrightarrow> e = IndexError"
  unfolding key_paths_def
  by (cases "(k, dict_get d1 k, dict_get d2 k)" rule: paths_at.cases)
     (auto simp: map_sum_def split: sum.splits dest: dict_diff_raises list_diff_raises)

lemma key_paths_neither:
  assumes "\<not> both_dicts d1 d2 k" and "\<not> both_lists d1 d2 k"
  shows "key_paths d1 d2 k = Inr (if py_ne (dict_get d1 k) (dict_get d2 k) then [[Key k]] else [])"
  using assms unfolding key_paths_def both_dicts_def both_lists_def
  by (cases "(k, dict_get d1 k, dict_get d2 k)" rule: paths_at.cases) auto

text \<open>
  The result of \<^verbatim>\<open>dict_diff\<close> key by key: the paths of the keys that are compared
  directly, then those of the keys with two dicts, then those of the keys with two lists.
  As multisets, the result is the sum of the paths of all keys, or IndexError when the
  recursive call of some key raises.
\<close>

lemma dict_diff_collect:
  "fst (dict_diff d1 d2) =
     collect (key_paths d1 d2)
       (filter (both_dicts d1 d2) (dict_keys d1 d2)
        @ filter (\<lambda>k. \<not> both_dicts d1 d2 k \<and> both_lists d1 d2 k) (dict_keys d1 d2))
       (map (\<lambda>k. [Key k])
          (filter (\<lambda>k. \<not> both_dicts d1 d2 k \<and> \<not> both_lists d1 d2 k
                        \<and> py_ne (dict_get d1 k) (dict_get d2 k)) (dict_keys d1 d2)))"
proof -
  have first: "fst (for_loop (filter (both_dicts d1 d2) ks) s (recurse_on_dict_key d1 d2))
        = collect (key_paths d1 d2) (filter (both_dicts d1 d2) ks) s" for ks s
    by (rule for_loop_collect) (simp add: recurse_on_dict_key_paths)
  have second: "fst (for_loop (filter (\<lambda>k. \<not> both_dicts d1 d2 k \<and> both_lists d1 d2 k) ks) s
                   (recurse_on_list_key d1 d2))
        = collect (key_paths d1 d2) (filter (\<lambda>k. \<not> both_dicts d1 d2 k \<and> both_lists d1 d2 k) ks) s"
    for ks s
    by (rule for_loop_collect) (simp add: recurse_on_list_key_paths)
  show ?thesis
    unfolding dict_diff_unfold [of d1 d2] fold_classify_filter prod.case
    by (simp add: fst_then_do first second collect_append split: sum.splits)
qed

lemma key_contributions:
  fixes h :: "scalar \<Rightarrow> path multiset"
  assumes "\<And>k. k \<in> set ks \<Longrightarrow> \<not> D k \<Longrightarrow> \<not> L k \<Longrightarrow> h k = (if N k then {#[Key k]#} else {#})"
  shows "mset (map (\<lambda>k. [Key k]) (filter (\<lambda>k. \<not> D k \<and> \<not> L k \<and> N k) ks))
           + (\<Sum>k\<leftarrow>filter D ks @ filter (\<lambda>k. \<not> D k \<and> L k) ks. h k)
         = (\<Sum>k\<leftarrow>ks. h k)"
  using assms by (induction ks) (auto simp: ac_simps)

lemma dict_diff_by_key:
  "map_sum id mset (fst (dict_diff d1 d2)) =
     (if \<exists>k \<in> set (dict_keys d1 d2). isl (key_paths d1 d2 k) then Inl IndexError
      else Inr (\<Sum>k\<leftarrow>dict_keys d1 d2. mset (projr (key_paths d1 d2 k))))"
proof -
  let ?ks = "dict_keys d1 d2"
  let ?D = "both_dicts d1 d2" and ?L = "both_lists d1 d2"
  let ?N = "\<lambda>k. py_ne (dict_get d1 k) (dict_get d2 k)"
  let ?r = "key_paths d1 d2"
  let ?rec = "filter ?D ?ks @ filter (\<lambda>k. \<not> ?D k \<and> ?L k) ?ks"
  let ?rv = "map (\<lambda>k. [Key k]) (filter (\<lambda>k. \<not> ?D k \<and> \<not> ?L k \<and> ?N k) ?ks)"
  have neither: "\<not> isl (?r k) \<and> mset (projr (?r k)) = (if ?N k then {#[Key k]#} else {#})"
    if "\<not> ?D k" "\<not> ?L k" for k
    by (simp add: key_paths_neither [OF that])
  have fails: "(\<exists>k \<in> set ?rec. isl (?r k)) \<longleftrightarrow> (\<exists>k \<in> set ?ks. isl (?r k))"
    using neither by auto
  have total: "mset ?rv + (\<Sum>k\<leftarrow>?rec. mset (projr (?r k))) = (\<Sum>k\<leftarrow>?ks. mset (projr (?r k)))"
    by (rule key_contributions) (simp add: neither)
  have "map_sum id mset (collect ?r ?rec ?rv) =
          (if \<exists>k \<in> set ?rec. isl (?r k) then Inl IndexError
           else Inr (mset ?rv + (\<Sum>k\<leftarrow>?rec. mset (projr (?r k)))))"
    by (rule collect_mset) (rule key_paths_Inl)
  then show ?thesis
    unfolding dict_diff_collect [of d1 d2] fails total .
qed

lemma dict_get_present:
  "dict_get d k \<noteq> Scalar SNone \<Longrightarrow> k \<in> fst ` set d"
  by (force simp: dict_get_def split: option.splits dest!: map_of_SomeD)

lemma key_paths_present:
  assumes "key_paths d1 d2 k \<noteq> Inr []"
  shows "dict_get d1 k \<noteq> Scalar SNone \<or> dict_get d2 k \<noteq> Scalar SNone"
  using assms by (auto simp: key_paths_def py_ne_def)

lemma set_dict_keys: "set (dict_keys d1 d2) = fst ` set d1 \<union> fst ` set d2"
  by (simp add: dict_keys_def)

lemma distinct_dict_keys: "distinct (dict_keys d1 d2)"
  by (simp add: dict_keys_def)

text \<open>
  Two pairs of dicts that agree on \<^verbatim>\<open>get(k, None)\<close> for every key get the same result:
  a key that only one pair holds is \<^verbatim>\<open>None\<close> on both sides and adds no path.
\<close>

lemma dict_diff_get_only:
  assumes e1: "\<And>k. dict_get e1 k = dict_get d1 k" and e2: "\<And>k. dict_get e2 k = dict_get d2 k"
  shows "map_sum id mset (fst (dict_diff e1 e2)) = map_sum id mset (fst (dict_diff d1 d2))"
proof -
  let ?r = "key_paths d1 d2"
  let ?h = "\<lambda>k. mset (projr (?r k))"
  have r: "key_paths e1 e2 = ?r"
    by (rule ext) (simp add: key_paths_def e1 e2)
  have in_d: "k \<in> set (dict_keys d1 d2)" if "?r k \<noteq> Inr []" for k
    using key_paths_present [OF that] dict_get_present [of d1 k] dict_get_present [of d2 k]
    by (auto simp: set_dict_keys)
  have in_e: "k \<in> set (dict_keys e1 e2)" if "?r k \<noteq> Inr []" for k
    using key_paths_present [OF that] dict_get_present [of e1 k] dict_get_present [of e2 k]
    by (auto simp: set_dict_keys e1 e2)
  have nz: "?r k \<noteq> Inr []" if "isl (?r k) \<or> ?h k \<noteq> {#}" for k
    using that by (cases "?r k") auto
  have fails: "(\<exists>k \<in> set (dict_keys e1 e2). isl (?r k)) \<longleftrightarrow> (\<exists>k \<in> set (dict_keys d1 d2). isl (?r k))"
    using in_d in_e nz by blast
  have sum_set: "(\<Sum>k\<leftarrow>dict_keys a b. ?h k) = sum ?h (set (dict_keys a b) - {k. ?h k = {#}})" for a b
    by (simp only: sum_list_distinct_conv_sum_set [OF distinct_dict_keys]
        sum.setdiff_irrelevant [OF finite_set])
  have "set (dict_keys e1 e2) - {k. ?h k = {#}} = set (dict_keys d1 d2) - {k. ?h k = {#}}"
    using in_d in_e nz by blast
  then have total: "(\<Sum>k\<leftarrow>dict_keys e1 e2. ?h k) = (\<Sum>k\<leftarrow>dict_keys d1 d2. ?h k)"
    by (simp only: sum_set)
  show ?thesis
    unfolding dict_diff_by_key r fails total ..
qed


lemma dict_get_insert_null:
  assumes "k \<notin> fst ` set (xs @ ys)"
  shows "dict_get (xs @ (k, Scalar SNone) # ys) k' = dict_get (xs @ ys) k'"
proof (cases "k' = k")
  case True
  have "map_of xs k = None" and "map_of ys k = None"
    using assms by (auto simp: map_of_eq_None_iff)
  then show ?thesis using True by (simp add: dict_get_def map_add_def)
next
  case False
  then show ?thesis by (simp add: dict_get_def map_add_def split: option.splits)
qed

text \<open>
  C7. \<^verbatim>\<open>dict_diff\<close> reads its arguments through \<^verbatim>\<open>d.get(k, None)\<close>. For a dict that
  lacks \<open>k\<close> and the same dict with \<open>k\<close> added anywhere and set to \<^verbatim>\<open>None\<close>,
  \<^verbatim>\<open>dict_diff\<close> gives the same outcome against every other dict, on the left and on the
  right: the same paths, compared as multisets since Python does not specify the order of
  \<^verbatim>\<open>keys\<close>, or IndexError in both calls; and every key is classified alike by the
  loop of lines 234 to 240. When each side lacks \<open>k\<close> or maps it to \<^verbatim>\<open>None\<close>, no path of
  the result starts with \<open>k\<close>. In particular \<^verbatim>\<open>dict_diff({}, {k: None})\<close> and
  \<^verbatim>\<open>dict_diff({k: None}, {})\<close> return the empty list.
\<close>

theorem absent_key_equals_null:
  "(k \<notin> fst ` set (xs @ ys) \<longrightarrow>
      map_sum id mset (fst (dict_diff (xs @ (k, Scalar SNone) # ys) d2))
        = map_sum id mset (fst (dict_diff (xs @ ys) d2))
      \<and> map_sum id mset (fst (dict_diff d1 (xs @ (k, Scalar SNone) # ys)))
        = map_sum id mset (fst (dict_diff d1 (xs @ ys)))
      \<and> (\<forall>k' acc. classify (xs @ (k, Scalar SNone) # ys) d2 k' acc = classify (xs @ ys) d2 k' acc)
      \<and> (\<forall>k' acc. classify d1 (xs @ (k, Scalar SNone) # ys) k' acc = classify d1 (xs @ ys) k' acc))
   \<and> (null_or_absent d1 k \<and> null_or_absent d2 k \<and> dict_diff d1 d2 = (Inr ps, out)
        \<longrightarrow> no_path_for k ps)
   \<and> dict_diff [] [(k, Scalar SNone)] = (Inr [], [])
   \<and> dict_diff [(k, Scalar SNone)] [] = (Inr [], [])"
proof -
  have same: "dict_get (xs @ (k, Scalar SNone) # ys) k' = dict_get (xs @ ys) k'"
    if "k \<notin> fst ` set (xs @ ys)" for k'
    using that by (rule dict_get_insert_null)
  have left: "map_sum id mset (fst (dict_diff (xs @ (k, Scalar SNone) # ys) d2))
        = map_sum id mset (fst (dict_diff (xs @ ys) d2))" if "k \<notin> fst ` set (xs @ ys)"
    by (rule dict_diff_get_only) (simp_all only: same [OF that])
  have right: "map_sum id mset (fst (dict_diff d1 (xs @ (k, Scalar SNone) # ys)))
        = map_sum id mset (fst (dict_diff d1 (xs @ ys)))" if "k \<notin> fst ` set (xs @ ys)"
    by (rule dict_diff_get_only) (simp_all only: same [OF that])
  have cl: "classify (xs @ (k, Scalar SNone) # ys) d2 k' acc = classify (xs @ ys) d2 k' acc"
    and cr: "classify d1 (xs @ (k, Scalar SNone) # ys) k' acc = classify d1 (xs @ ys) k' acc"
    if "k \<notin> fst ` set (xs @ ys)" for k' acc
    by (rule classify_cong; simp only: same [OF that])+
  have none: "no_path_for k ps"
    if "null_or_absent d1 k \<and> null_or_absent d2 k \<and> dict_diff d1 d2 = (Inr ps, out)"
    using that dict_diff_no_path_for_null [of d1 k d2 ps out] by (simp add: null_or_absent_get)
  show ?thesis
    using left right cl cr none by (simp add: dict_diff_empty_null dict_diff_null_empty)
qed

theorem absent_key_equals_null_witness:
  "SStr ''k'' \<notin> fst ` set ([(SStr ''a'', Scalar (SInt 1))] @ [])
   \<and> fst (dict_diff [(SStr ''a'', Scalar (SInt 1))]
            [(SStr ''a'', Scalar (SInt 1)), (SStr ''k'', Scalar (SInt 2))])
       = Inr [[Key (SStr ''k'')]]
   \<and> map_sum id mset
         (fst (dict_diff ([(SStr ''a'', Scalar (SInt 1))] @ (SStr ''k'', Scalar SNone) # [])
                 [(SStr ''a'', Scalar (SInt 1)), (SStr ''k'', Scalar (SInt 2))]))
       = Inr {#[Key (SStr ''k'')]#}
   \<and> map_sum id mset
         (fst (dict_diff [(SStr ''a'', Scalar (SInt 1)), (SStr ''k'', Scalar (SInt 2))]
                 ([(SStr ''a'', Scalar (SInt 1))] @ (SStr ''k'', Scalar SNone) # [])))
       = Inr {#[Key (SStr ''k'')]#}
   \<and> null_or_absent [(SStr ''a'', Scalar (SInt 1))] (SStr ''k'')
   \<and> null_or_absent [(SStr ''a'', Scalar (SInt 2)), (SStr ''k'', Scalar SNone)] (SStr ''k'')
   \<and> dict_diff [(SStr ''a'', Scalar (SInt 1))]
         [(SStr ''a'', Scalar (SInt 2)), (SStr ''k'', Scalar SNone)]
       = (Inr [[Key (SStr ''a'')]], [])
   \<and> no_path_for (SStr ''k'') [[Key (SStr ''a'')]]"
proof -
  let ?a1 = "[(SStr ''a'', Scalar (SInt 1))]"
  let ?D = "[(SStr ''a'', Scalar (SInt 1)), (SStr ''k'', Scalar (SInt 2))]"
  let ?E = "[(SStr ''a'', Scalar (SInt 2)), (SStr ''k'', Scalar SNone)]"
  have r1: "fst (dict_diff ?a1 ?D) = Inr [[Key (SStr ''k'')]]" by code_simp
  have r2: "fst (dict_diff ?D ?a1) = Inr [[Key (SStr ''k'')]]" by code_simp
  have r3: "dict_diff ?a1 ?E = (Inr [[Key (SStr ''a'')]], [])" by code_simp
  show ?thesis
    using
      absent_key_equals_null
        [where k = "SStr ''k''" and xs = ?a1 and ys = "[]" and ?d1.0 = ?D and ?d2.0 = ?D]
      absent_key_equals_null
        [where k = "SStr ''k''" and ?d1.0 = ?a1 and ?d2.0 = ?E and ps = "[[Key (SStr ''a'')]]"
           and out = "[]"]
      r1 r2 r3
    by (simp add: null_or_absent_def)
qed

end
